theory Spec2Isabelle
  imports Main "HOL-Library.Sublist" "HOL-Library.Word"
begin

unbundle bit_operations_syntax

section \<open>Go library functions the repository calls\<close>

text \<open>
  A Go \<^verbatim>\<open>string\<close> is a sequence of bytes, and so is \<^typ>\<open>string\<close>. The functions of
  package \<^verbatim>\<open>strings\<close> used by the repository are modelled on bytes, after their
  documentation and their Go source. An \<^verbatim>\<open>error\<close> is modelled by its message.
\<close>

type_synonym error = string

text \<open>\<^verbatim>\<open>strings.Index(s, substr)\<close>: the first position at which \<open>substr\<close> occurs
  (Go returns \<open>-1\<close> where this model returns \<open>None\<close>).\<close>

fun Index :: "string \<Rightarrow> string \<Rightarrow> nat option" where
  "Index [] substr = (if substr = [] then Some 0 else None)"
| "Index (c # s) substr =
     (if prefix substr (c # s) then Some 0 else map_option Suc (Index s substr))"

text \<open>\<^verbatim>\<open>strings.Contains(s, substr)\<close> is \<^verbatim>\<open>Index(s, substr) >= 0\<close>.\<close>

definition Contains :: "string \<Rightarrow> string \<Rightarrow> bool" where
  "Contains s substr = (Index s substr \<noteq> None)"

definition HasPrefix :: "string \<Rightarrow> string \<Rightarrow> bool" where
  "HasPrefix s pre = (length pre \<le> length s \<and> take (length pre) s = pre)"

definition HasSuffix :: "string \<Rightarrow> string \<Rightarrow> bool" where
  "HasSuffix s suf = (length suf \<le> length s \<and> drop (length s - length suf) s = suf)"

text \<open>\<^verbatim>\<open>strings.TrimPrefix\<close> and \<^verbatim>\<open>strings.TrimSuffix\<close> remove one occurrence, or
  return \<open>s\<close> unchanged.\<close>

definition TrimPrefix :: "string \<Rightarrow> string \<Rightarrow> string" where
  "TrimPrefix s pre = (if HasPrefix s pre then drop (length pre) s else s)"

definition TrimSuffix :: "string \<Rightarrow> string \<Rightarrow> string" where
  "TrimSuffix s suf = (if HasSuffix s suf then take (length s - length suf) s else s)"

lemma Index_bound: "Index s substr = Some j \<Longrightarrow> j + length substr \<le> length s"
proof (induction s arbitrary: j)
  case Nil
  then show ?case by (simp split: if_splits)
next
  case (Cons c s)
  show ?case
  proof (cases "prefix substr (c # s)")
    case True
    then have "length substr \<le> length (c # s)" by (rule prefix_length_le)
    with True Cons.prems show ?thesis by simp
  next
    case False
    with Cons.prems obtain k where "Index s substr = Some k" and "j = Suc k"
      by auto
    with Cons.IH show ?thesis by fastforce
  qed
qed

text \<open>
  \<^verbatim>\<open>strings.Replace(s, old, new, -1)\<close>: every non-overlapping occurrence of \<open>old\<close>,
  found from left to right, is replaced by \<open>new\<close>. The repository calls it with the
  count \<open>-1\<close> (no limit) only. With an empty \<open>old\<close> Go inserts \<open>new\<close> before every
  UTF-8 sequence and at the end; the model does so before every byte, which is the same
  on ASCII text (the repository never passes an empty \<open>old\<close>).
\<close>

function Replace :: "string \<Rightarrow> string \<Rightarrow> string \<Rightarrow> string" where
  "Replace s old new =
     (if old = [] then new @ concat (map (\<lambda>c. c # new) s)
      else case Index s old of
             None \<Rightarrow> s
           | Some j \<Rightarrow> take j s @ new @ Replace (drop (j + length old) s) old new)"
  by pat_completeness auto
termination
proof (relation "measure (\<lambda>(s, old, new). length s)")
  show "wf (measure (\<lambda>(s, old, new). length s))" by simp
next
  fix s old new :: string and j
  assume "old \<noteq> []" and "Index s old = Some j"
  then have "j + length old \<le> length s" and "length old \<noteq> 0"
    by (simp_all add: Index_bound)
  then have "length s - (j + length old) < length s" by arith
  then show "((drop (j + length old) s, old, new), (s, old, new))
      \<in> measure (\<lambda>(s, old, new). length s)"
    by simp
qed

declare Replace.simps [simp del]

text \<open>
  \<^verbatim>\<open>strings.Split(s, sep)\<close>: the pieces of \<open>s\<close> between the occurrences of \<open>sep\<close>,
  one more than there are occurrences. With an empty \<open>sep\<close> Go splits after every UTF-8
  sequence; the model splits after every byte (the repository never passes an empty
  \<open>sep\<close>).
\<close>

function Split :: "string \<Rightarrow> string \<Rightarrow> string list" where
  "Split s sep =
     (if sep = [] then map (\<lambda>c. [c]) s
      else case Index s sep of
             None \<Rightarrow> [s]
           | Some m \<Rightarrow> take m s # Split (drop (m + length sep) s) sep)"
  by pat_completeness auto
termination
proof (relation "measure (\<lambda>(s, sep). length s)")
  show "wf (measure (\<lambda>(s, sep). length s))" by simp
next
  fix s sep :: string and m
  assume "sep \<noteq> []" and "Index s sep = Some m"
  then have "m + length sep \<le> length s" and "length sep \<noteq> 0"
    by (simp_all add: Index_bound)
  then have "length s - (m + length sep) < length s" by arith
  then show "((drop (m + length sep) s, sep), (s, sep)) \<in> measure (\<lambda>(s, sep). length s)"
    by simp
qed

declare Split.simps [simp del]

section \<open>Repository names: \<^verbatim>\<open>cleanRepoName\<close>\<close>

text \<open>
  \<^verbatim>\<open>
  func cleanRepoName(name string) (string, error) {
      if len(name) == 0 {
          return name, errors.New("Empty repo name.")
      }
      if strings.Contains(name, "..") {
          return "", errors.New("Cannot change directory in file name.")
      }
      name = strings.Replace(name, "'", "", -1)
      return strings.TrimPrefix(strings.TrimSuffix(name, ".git"), "/"), nil
  }
  \<close>
  The result is \<open>Inl\<close> of the error when the error is not nil, and \<open>Inr\<close> of the name
  otherwise. The character \<open>'\<close> is byte \<open>0x27\<close>.
\<close>

definition quote :: char where
  "quote = CHR 0x27"

definition cleanRepoName :: "string \<Rightarrow> error + string" where
  "cleanRepoName name =
     (if length name = 0 then Inl ''Empty repo name.''
      else if Contains name ''..'' then Inl ''Cannot change directory in file name.''
      else Inr (TrimPrefix (TrimSuffix (Replace name [quote] []) ''.git'') ''/''))"

section \<open>Ref-update lines: \<^verbatim>\<open>readLine\<close>\<close>

text \<open>
  \<^verbatim>\<open>
  func readLine(line string) (string, string, string, error) {
      spl := strings.Split(line, " ")
      if len(spl) != 3 {
          return "", "", "", fmt.Errorf("malformed line [%s]", line)
      }
      return spl[0], spl[1], spl[2], nil
  }
  \<close>
\<close>

definition readLine :: "string \<Rightarrow> error + string \<times> string \<times> string" where
  "readLine line =
     (let spl = Split line '' ''
      in if length spl \<noteq> 3 then Inl (''malformed line ['' @ line @ '']'')
         else Inr (spl ! 0, spl ! 1, spl ! 2))"

section \<open>Storage locations: \<^verbatim>\<open>NewSlugBuilderInfo\<close>\<close>

text \<open>
  The process environment is a list of \<open>(name, value)\<close> pairs; \<^verbatim>\<open>os.Getenv\<close> returns
  the value of the first entry with the name, and the empty string when there is none.
\<close>

type_synonym environ = "(string \<times> string) list"

definition Getenv :: "environ \<Rightarrow> string \<Rightarrow> string" where
  "Getenv env k = (case map_of env k of None \<Rightarrow> [] | Some v \<Rightarrow> v)"

text \<open>
  Modelled from the spec: the type \<^verbatim>\<open>git.SHA\<close> of package \<^verbatim>\<open>pkg/gitreceive/git\<close>, which
  is not among the sources. The spec describes it as a commit hash with a canonical short
  representation, a fixed-length prefix; \<^verbatim>\<open>NewSlugBuilderInfo\<close> reads nothing
  of it but \<^verbatim>\<open>Short()\<close>.
\<close>

datatype SHA = SHA (Short: string)

record SlugBuilderInfo =
  pushKey :: string
  pushURL :: string
  tarKey :: string
  tarURL :: string
  slugKey :: string
  slugURL :: string

text \<open>
  \<^verbatim>\<open>
  func NewSlugBuilderInfo(appName, slugName string, gitSha *git.SHA) *SlugBuilderInfo {
      s3Endpoint := "http://" + os.Getenv("DEIS_BUILDER_SERVICE_HOST") + ":3000"
      tarKey := fmt.Sprintf("home/%s/tar", slugName)
      pushKey := fmt.Sprintf("home/%s:git-%s/push", appName, gitSha.Short())
      slugKey := fmt.Sprintf("home/%s:git-%s/slug", appName, gitSha.Short())
      return &SlugBuilderInfo{
          pushKey: pushKey,
          pushURL: fmt.Sprintf("%s/git/%s", s3Endpoint, pushKey),
          tarKey:  tarKey,
          tarURL:  fmt.Sprintf("%s/git/%s", s3Endpoint, tarKey),
          slugKey: slugKey,
          slugURL: fmt.Sprintf("%s/git/%s", s3Endpoint, slugKey),
      }
  }
  \<close>
  Every verb of the format strings is \<^verbatim>\<open>%s\<close> with a string argument, so each
  \<^verbatim>\<open>Sprintf\<close> is the catenation of the pieces of its format and its arguments.
\<close>

definition NewSlugBuilderInfo :: "environ \<Rightarrow> string \<Rightarrow> string \<Rightarrow> SHA \<Rightarrow> SlugBuilderInfo" where
  "NewSlugBuilderInfo env appName slugName gitSha =
     (let s3Endpoint = ''http://'' @ Getenv env ''DEIS_BUILDER_SERVICE_HOST'' @ '':3000'';
          tarKey = ''home/'' @ slugName @ ''/tar'';
          pushKey = ''home/'' @ appName @ '':git-'' @ Short gitSha @ ''/push'';
          slugKey = ''home/'' @ appName @ '':git-'' @ Short gitSha @ ''/slug''
      in \<lparr>pushKey = pushKey,
          pushURL = s3Endpoint @ ''/git/'' @ pushKey,
          tarKey = tarKey,
          tarURL = s3Endpoint @ ''/git/'' @ tarKey,
          slugKey = slugKey,
          slugURL = s3Endpoint @ ''/git/'' @ slugKey\<rparr>)"

text \<open>The accessors of the source: \<^verbatim>\<open>func (s SlugBuilderInfo) PushKey() string { return s.pushKey }\<close>
  and its siblings (there is none for \<^verbatim>\<open>slugKey\<close>).\<close>

definition PushKey :: "SlugBuilderInfo \<Rightarrow> string" where "PushKey s = pushKey s"
definition PushURL :: "SlugBuilderInfo \<Rightarrow> string" where "PushURL s = pushURL s"
definition TarKey :: "SlugBuilderInfo \<Rightarrow> string" where "TarKey s = tarKey s"
definition TarURL :: "SlugBuilderInfo \<Rightarrow> string" where "TarURL s = tarURL s"
definition SlugURL :: "SlugBuilderInfo \<Rightarrow> string" where "SlugURL s = slugURL s"

section \<open>Public-key authentication: \<^verbatim>\<open>AuthKey\<close>\<close>

type_synonym byte = "8 word"

text \<open>
  Package \<^verbatim>\<open>crypto/subtle\<close> of the Go library:
  \<^verbatim>\<open>
  func ConstantTimeByteEq(x, y uint8) int {
      return int((uint32(x^y) - 1) >> 31)
  }
  func ConstantTimeCompare(x, y []byte) int {
      if len(x) != len(y) {
          return 0
      }
      var v byte
      for i := 0; i < len(x); i++ {
          v |= x[i] ^ y[i]
      }
      return ConstantTimeByteEq(v, 0)
  }
  \<close>
  The subtraction wraps around in 32 bits. The loop is \<open>xor_loop\<close>, which runs over both
  slices at once with the accumulator \<open>v\<close>; it is only called on slices of one length.
\<close>

definition ConstantTimeByteEq :: "byte \<Rightarrow> byte \<Rightarrow> int" where
  "ConstantTimeByteEq x y = uint (drop_bit 31 ((ucast (x XOR y) :: 32 word) - 1))"

fun xor_loop :: "byte list \<Rightarrow> byte list \<Rightarrow> byte \<Rightarrow> byte" where
  "xor_loop (a # x) (b # y) v = xor_loop x y (v OR (a XOR b))"
| "xor_loop x y v = v"

definition ConstantTimeCompare :: "byte list \<Rightarrow> byte list \<Rightarrow> int" where
  "ConstantTimeCompare x y =
     (if length x \<noteq> length y then 0 else ConstantTimeByteEq (xor_loop x y 0) 0)"

text \<open>
  An \<^verbatim>\<open>ssh.PublicKey\<close> is an interface value; the code observes its methods
  \<^verbatim>\<open>Type()\<close> and \<^verbatim>\<open>Marshal()\<close>. A nil interface value is \<open>None\<close>, and a method
  call on it panics. A Go call either panics or returns.
\<close>

record PublicKey =
  Type :: string
  Marshal :: "byte list"

datatype 'a go = Panic | Return 'a

record Permissions =
  CriticalOptions :: "(string \<times> string) list"
  Extensions :: "(string \<times> string) list"

text \<open>
  \<^verbatim>\<open>
  func compareKeys(a, b ssh.PublicKey) bool {
      if a.Type() != b.Type() {
          return false
      }
      return subtle.ConstantTimeCompare(a.Marshal(), b.Marshal()) == 1
  }
  \<close>
\<close>

definition compareKeys :: "PublicKey option \<Rightarrow> PublicKey option \<Rightarrow> bool go" where
  "compareKeys a b =
     (case a of
        None \<Rightarrow> Panic
      | Some ka \<Rightarrow>
          (case b of
             None \<Rightarrow> Panic
           | Some kb \<Rightarrow>
               if Type ka \<noteq> Type kb then Return False
               else Return (ConstantTimeCompare (Marshal ka) (Marshal kb) = 1)))"

text \<open>
  \<^verbatim>\<open>ssh.ParseAuthorizedKey(in)\<close> of \<^verbatim>\<open>golang.org/x/crypto/ssh\<close> reads \<open>in\<close> line by
  line in a loop \<^verbatim>\<open>for len(in) > 0\<close>, returns the key of the first line that parses, and
  after the loop returns a nil key with the error \<^verbatim>\<open>ssh: no key found\<close>. The key is nil
  exactly when the error is not; \<open>None\<close> is that case. What the loop finds in a non-empty
  input is the parameter \<open>parseKey\<close>.
\<close>

definition ParseAuthorizedKey :: "(byte list \<Rightarrow> PublicKey option) \<Rightarrow> byte list \<Rightarrow> PublicKey option" where
  "ParseAuthorizedKey parseKey inp = (if length inp > 0 then parseKey inp else None)"

text \<open>
  \<^verbatim>\<open>
  func AuthKey(c cookoo.Context, p *cookoo.Params) (interface{}, cookoo.Interrupt) {
      log.Debugf(c, "Starting ssh authentication")
      key := p.Get("key", nil).(ssh.PublicKey)
      allowedkey, _ := ioutil.ReadFile("/etc/deistest.pub")
      allowed, _, _, _, err := ssh.ParseAuthorizedKey(allowedkey)
      fmt.Println(err)
      fmt.Println(allowed)
      fmt.Println(key)
      if compareKeys(key, allowed) {
          perm := &ssh.Permissions{
              Extensions: map[string]string{
                  "user": "builder",
              },
          }
          return perm, nil
      }
      return nil, nil
  }
  \<close>
  \<open>readFile\<close> is the file system as \<^verbatim>\<open>ioutil.ReadFile\<close> sees it: the contents of a path,
  or \<open>None\<close> where the read fails; the error is dropped and the contents are then the nil
  slice. \<open>key\<close> is the parameter \<^verbatim>\<open>"key"\<close>, \<open>None\<close> when it is not set: the type
  assertion panics on it. The interrupt returned is nil on every path, so the result is
  the first component: the permissions, or \<open>None\<close> for nil. The lines printed are left
  out.
\<close>

definition AuthKey ::
  "(string \<Rightarrow> byte list option) \<Rightarrow> (byte list \<Rightarrow> PublicKey option) \<Rightarrow> PublicKey option
     \<Rightarrow> Permissions option go" where
  "AuthKey readFile parseKey key =
     (case key of
        None \<Rightarrow> Panic
      | Some k \<Rightarrow>
          (let allowedkey = (case readFile ''/etc/deistest.pub'' of None \<Rightarrow> [] | Some bs \<Rightarrow> bs);
               allowed = ParseAuthorizedKey parseKey allowedkey
           in case compareKeys (Some k) allowed of
                Panic \<Rightarrow> Panic
              | Return True \<Rightarrow>
                  Return (Some \<lparr>CriticalOptions = [], Extensions = [(''user'', ''builder'')]\<rparr>)
              | Return False \<Rightarrow> Return None))"

section \<open>The bare repository on disk: \<^verbatim>\<open>createRepo\<close>\<close>

text \<open>
  The world outside the process, as far as \<^verbatim>\<open>createRepo\<close> and \<^verbatim>\<open>Receive\<close> touch it:
  what a path names (\<open>nodes\<close>), where the operating system refuses an operation
  (\<open>stat_err\<close>, \<open>mkdir_err\<close>, \<open>write_err\<close>: the error returned at a path), where
  \<^verbatim>\<open>git init --bare\<close> fails (\<open>git_err\<close>), and the \<open>trace\<close> of what has been executed so
  far, the latest event last.
\<close>

datatype node = Dir | File

datatype event =
    EvMkdirAll string
  | EvGitInit string
  | EvWriteFile string
  | EvChannelStderr string
  | EvStart "string list" "string list"
  | EvCopy
  | EvWait

record world =
  nodes :: "string \<rightharpoonup> node"
  stat_err :: "string \<rightharpoonup> error"
  mkdir_err :: "string \<rightharpoonup> error"
  git_err :: "string \<rightharpoonup> error"
  write_err :: "string \<rightharpoonup> error"
  trace :: "event list"

text \<open>
  \<^verbatim>\<open>os.Stat(path)\<close> returns a \<^verbatim>\<open>FileInfo\<close> and a nil error for a directory or a file, an
  error for which \<^verbatim>\<open>os.IsNotExist\<close> holds when the path names nothing, or another error.
\<close>

datatype stat = StatDir | StatFile | NotExist | StatErr error

definition Stat :: "world \<Rightarrow> string \<Rightarrow> stat" where
  "Stat w path =
     (case stat_err w path of
        Some e \<Rightarrow> StatErr e
      | None \<Rightarrow> (case nodes w path of None \<Rightarrow> NotExist | Some Dir \<Rightarrow> StatDir | Some File \<Rightarrow> StatFile))"

text \<open>
  \<^verbatim>\<open>os.MkdirAll(path, 0755)\<close> creates the directory and the parents it lacks. It fails
  with \<^verbatim>\<open>not a directory\<close> where the path or one of its parents is a file, and where the
  operating system refuses; a failed call leaves the nodes as they were. The parents of a
  path are its proper prefixes that end before a \<open>/\<close>, the shortest first.
\<close>

definition parents :: "string \<Rightarrow> string list" where
  "parents path = map (\<lambda>i. take i path) (filter (\<lambda>i. path ! i = CHR ''/'') [1..<length path])"

definition MkdirAll :: "string \<Rightarrow> world \<Rightarrow> error option \<times> world" where
  "MkdirAll path w =
     (let w1 = w\<lparr>trace := trace w @ [EvMkdirAll path]\<rparr>
      in case find (\<lambda>q. nodes w q = Some File) (parents path @ [path]) of
           Some q \<Rightarrow> (Some (''mkdir '' @ q @ '': not a directory''), w1)
         | None \<Rightarrow>
             (case mkdir_err w path of
                Some e \<Rightarrow> (Some e, w1)
              | None \<Rightarrow>
                  (None, w1\<lparr>nodes := (\<lambda>q. if q \<in> set (parents path @ [path]) then Some Dir
                                           else nodes w q)\<rparr>)))"

text \<open>
  \<^verbatim>\<open>cmd := exec.Command("git", "init", "--bare"); cmd.Dir = repoPath; cmd.CombinedOutput()\<close>.
  A successful \<^verbatim>\<open>git init --bare\<close> fills the directory with the layout of a bare
  repository; a failed one leaves the nodes as they were.
\<close>

definition bare_layout :: "string \<Rightarrow> (string \<times> node) list" where
  "bare_layout dir =
     [(dir @ ''/HEAD'', File), (dir @ ''/config'', File), (dir @ ''/description'', File),
      (dir @ ''/hooks'', Dir), (dir @ ''/info'', Dir), (dir @ ''/objects'', Dir),
      (dir @ ''/refs'', Dir)]"

definition GitInit :: "string \<Rightarrow> world \<Rightarrow> error option \<times> world" where
  "GitInit dir w =
     (let w1 = w\<lparr>trace := trace w @ [EvGitInit dir]\<rparr>
      in case git_err w dir of
           Some e \<Rightarrow> (Some e, w1)
         | None \<Rightarrow> (None, w1\<lparr>nodes := nodes w ++ map_of (bare_layout dir)\<rparr>))"

text \<open>
  \<^verbatim>\<open>
  func createRepo(c cookoo.Context, repoPath string) (bool, error) {
      createLock.Lock()
      defer createLock.Unlock()

      fi, err := os.Stat(repoPath)
      if err == nil && fi.IsDir() {
          // Nothing to do.
          return false, nil
      } else if os.IsNotExist(err) {
          // Create directory
          if err := os.MkdirAll(repoPath, 0755); err != nil {
              return false, err
          }
          cmd := exec.Command("git", "init", "--bare")
          cmd.Dir = repoPath
          if out, err := cmd.CombinedOutput(); err != nil {
              return false, err
          }
          return true, nil
      } else if err == nil {
          return false, errors.New("Expected directory, found file.")
      }
      return false, err
  }
  \<close>
  One call, run with the lock held from its first statement to its return: the result
  (\<open>Inl\<close> the error, \<open>Inr\<close> the flag returned with a nil error) and the world it leaves.
  The log lines are left out.
\<close>

definition createRepo :: "string \<Rightarrow> world \<Rightarrow> (error + bool) \<times> world" where
  "createRepo repoPath w =
     (case Stat w repoPath of
        StatDir \<Rightarrow> (Inr False, w)
      | NotExist \<Rightarrow>
          (case MkdirAll repoPath w of
             (Some e, w1) \<Rightarrow> (Inl e, w1)
           | (None, w1) \<Rightarrow>
               (case GitInit repoPath w1 of
                  (Some e, w2) \<Rightarrow> (Inl e, w2)
                | (None, w2) \<Rightarrow> (Inr True, w2)))
      | StatFile \<Rightarrow> (Inl ''Expected directory, found file.'', w)
      | StatErr e \<Rightarrow> (Inl e, w))"

subsection \<open>Concurrent calls of \<^verbatim>\<open>createRepo\<close>\<close>

text \<open>
  Each call of \<^verbatim>\<open>createRepo\<close> runs on a thread of its own. A thread is at one of the
  points of the function: before \<^verbatim>\<open>createLock.Lock()\<close> (\<open>Idle\<close>), before
  \<^verbatim>\<open>os.Stat\<close>, before \<^verbatim>\<open>os.MkdirAll\<close>, before \<^verbatim>\<open>git init\<close>, before the deferred
  \<^verbatim>\<open>createLock.Unlock()\<close> with the result it is about to return, or returned. The
  process has one \<^verbatim>\<open>createLock\<close>, a \<^verbatim>\<open>sync.Mutex\<close>: \<^verbatim>\<open>Lock\<close> blocks while the mutex is
  held.
\<close>

datatype pc = Idle | AtStat | AtMkdir | AtGitInit | Unlocking "error + bool" | Done "error + bool"

record sys =
  world_of :: world
  locked :: bool
  pcs :: "pc list"

text \<open>
  One step of thread \<open>i\<close>, every thread calling \<^verbatim>\<open>createRepo\<close> with the same
  \<open>repoPath\<close>. A thread that waits for the mutex, or has returned, leaves the state as it
  is.
\<close>

definition thread_step :: "string \<Rightarrow> nat \<Rightarrow> sys \<Rightarrow> sys" where
  "thread_step repoPath i s =
     (if length (pcs s) \<le> i then s
      else case pcs s ! i of
        Idle \<Rightarrow> if locked s then s else s\<lparr>locked := True, pcs := (pcs s)[i := AtStat]\<rparr>
      | AtStat \<Rightarrow>
          (case Stat (world_of s) repoPath of
             StatDir \<Rightarrow> s\<lparr>pcs := (pcs s)[i := Unlocking (Inr False)]\<rparr>
           | NotExist \<Rightarrow> s\<lparr>pcs := (pcs s)[i := AtMkdir]\<rparr>
           | StatFile \<Rightarrow> s\<lparr>pcs := (pcs s)[i := Unlocking (Inl ''Expected directory, found file.'')]\<rparr>
           | StatErr e \<Rightarrow> s\<lparr>pcs := (pcs s)[i := Unlocking (Inl e)]\<rparr>)
      | AtMkdir \<Rightarrow>
          (case MkdirAll repoPath (world_of s) of
             (Some e, w1) \<Rightarrow> s\<lparr>world_of := w1, pcs := (pcs s)[i := Unlocking (Inl e)]\<rparr>
           | (None, w1) \<Rightarrow> s\<lparr>world_of := w1, pcs := (pcs s)[i := AtGitInit]\<rparr>)
      | AtGitInit \<Rightarrow>
          (case GitInit repoPath (world_of s) of
             (Some e, w2) \<Rightarrow> s\<lparr>world_of := w2, pcs := (pcs s)[i := Unlocking (Inl e)]\<rparr>
           | (None, w2) \<Rightarrow> s\<lparr>world_of := w2, pcs := (pcs s)[i := Unlocking (Inr True)]\<rparr>)
      | Unlocking r \<Rightarrow> s\<lparr>locked := False, pcs := (pcs s)[i := Done r]\<rparr>
      | Done r \<Rightarrow> s)"

text \<open>An interleaving is a schedule: the list of the threads that take the steps, in
  order. \<open>start n w\<close> is the state in which \<open>n\<close> threads are about to call
  \<^verbatim>\<open>createRepo\<close> and the mutex is free.\<close>

definition run :: "string \<Rightarrow> nat list \<Rightarrow> sys \<Rightarrow> sys" where
  "run repoPath sched s = fold (thread_step repoPath) sched s"

definition start :: "nat \<Rightarrow> world \<Rightarrow> sys" where
  "start n w = \<lparr>world_of = w, locked = False, pcs = replicate n Idle\<rparr>"

definition returned :: "pc \<Rightarrow> bool" where
  "returned c = (case c of Done r \<Rightarrow> True | _ \<Rightarrow> False)"

text \<open>How often \<^verbatim>\<open>git init --bare\<close> has been executed in a directory.\<close>

definition git_inits :: "string \<Rightarrow> world \<Rightarrow> nat" where
  "git_inits dir w = count_list (trace w) (EvGitInit dir)"

text \<open>The schedule in which the threads run one after the other, five steps each.\<close>

definition serial :: "nat \<Rightarrow> nat list" where
  "serial n = concat (map (\<lambda>i. [i, i, i, i, i]) [0..<n])"

section \<open>Receiving a push: \<^verbatim>\<open>Receive\<close>\<close>

text \<open>
  The git-shell subprocess, as the environment decides it: the error, if any, of
  \<^verbatim>\<open>cmd.StdinPipe()\<close>, of \<^verbatim>\<open>cmd.Start()\<close>, of \<^verbatim>\<open>io.Copy(inpipe, channel)\<close> and of
  \<^verbatim>\<open>cmd.Wait()\<close>, and what the subprocess has written to its standard error, which
  \<^verbatim>\<open>io.MultiWriter(channel.Stderr(), &errbuff)\<close> collects in \<^verbatim>\<open>errbuff\<close>, by the time
  \<^verbatim>\<open>Start\<close> returns, by the time \<^verbatim>\<open>io.Copy\<close> returns and by the time \<^verbatim>\<open>Wait\<close>
  returns.
\<close>

record subprocess =
  pipe_err :: "error option"
  start_err :: "error option"
  copy_err :: "error option"
  wait_err :: "error option"
  errbuff_at_start :: string
  errbuff_at_copy :: string
  errbuff_at_wait :: string

text \<open>
  \<^verbatim>\<open>
  func createPreReceiveHook(c cookoo.Context, gitHome, repoPath string) error {
      var hookByteBuf bytes.Buffer
      if err := preReceiveHookTpl.Execute(&hookByteBuf, map[string]string{"GitHome": gitHome}); err != nil {
          return err
      }
      writePath := filepath.Join(repoPath, "hooks", "pre-receive")
      if err := ioutil.WriteFile(writePath, hookByteBuf.Bytes(), 0755); err != nil {
          return fmt.Errorf("Cannot write pre-receive hook to %s (%s)", writePath, err)
      }
      return nil
  }
  \<close>
  \<^verbatim>\<open>filepath.Join\<close> is the parameter \<open>join\<close>. The template has the one field
  \<^verbatim>\<open>.GitHome\<close>, which the map provides, so its execution does not fail; the text of
  the hook is not part of the model.
\<close>

definition createPreReceiveHook ::
  "(string list \<Rightarrow> string) \<Rightarrow> string \<Rightarrow> string \<Rightarrow> world \<Rightarrow> error option \<times> world" where
  "createPreReceiveHook join gitHome repoPath w =
     (let writePath = join [repoPath, ''hooks'', ''pre-receive''];
          w1 = w\<lparr>trace := trace w @ [EvWriteFile writePath]\<rparr>
      in case write_err w writePath of
           Some e \<Rightarrow>
             (Some (''Cannot write pre-receive hook to '' @ writePath @ '' ('' @ e @ '')''), w1)
         | None \<Rightarrow> (None, w1\<lparr>nodes := (nodes w)(writePath \<mapsto> File)\<rparr>))"

text \<open>
  The end of \<^verbatim>\<open>Receive\<close>, from \<^verbatim>\<open>cmd.StdinPipe()\<close> on:
  \<^verbatim>\<open>
      inpipe, err := cmd.StdinPipe()
      if err != nil {
          return nil, err
      }
      cmd.Stdout = channel
      cmd.Stderr = io.MultiWriter(channel.Stderr(), &errbuff)

      if err := cmd.Start(); err != nil {
          err = fmt.Errorf("Failed to start git pre-receive hook: %s (%s)", err, errbuff.Bytes())
          return nil, err
      }

      if _, err := io.Copy(inpipe, channel); err != nil {
          err = fmt.Errorf("Failed to write git objects into the git pre-receive hook (%s)", err)
          return nil, err
      }

      if err := cmd.Wait(); err != nil {
          err = fmt.Errorf("Failed to run git pre-receive hook: %s (%s)", errbuff.Bytes(), err)
          return nil, err
      }
      if errbuff.Len() > 0 {
          log.Warnf(c, "Unreported error: %s", errbuff.Bytes())
      }
      return nil, nil
  \<close>
  The result is the error returned, \<open>None\<close> for nil. Each of \<^verbatim>\<open>Start\<close>, \<^verbatim>\<open>Copy\<close> and
  \<^verbatim>\<open>Wait\<close> is entered in the trace when it is executed. The branch of the copy does not
  read \<^verbatim>\<open>errbuff\<close>, so \<open>errbuff_at_copy\<close> does not occur.
\<close>

definition run_git_shell ::
  "string list \<Rightarrow> string list \<Rightarrow> subprocess \<Rightarrow> world \<Rightarrow> error option \<times> world" where
  "run_git_shell args env sp w =
     (case pipe_err sp of
        Some e \<Rightarrow> (Some e, w)
      | None \<Rightarrow>
          (let w1 = w\<lparr>trace := trace w @ [EvStart args env]\<rparr>
           in case start_err sp of
                Some e \<Rightarrow>
                  (Some (''Failed to start git pre-receive hook: '' @ e @ '' ('' @
                         errbuff_at_start sp @ '')''), w1)
              | None \<Rightarrow>
                  (let w2 = w1\<lparr>trace := trace w1 @ [EvCopy]\<rparr>
                   in case copy_err sp of
                        Some e \<Rightarrow>
                          (Some (''Failed to write git objects into the git pre-receive hook ('' @
                                 e @ '')''), w2)
                      | None \<Rightarrow>
                          (let w3 = w2\<lparr>trace := trace w2 @ [EvWait]\<rparr>
                           in case wait_err sp of
                                Some e \<Rightarrow>
                                  (Some (''Failed to run git pre-receive hook: '' @
                                         errbuff_at_wait sp @ '' ('' @ e @ '')''), w3)
                              | None \<Rightarrow> (None, w3)))))"

text \<open>
  The parameters of the route, after the defaults of \<^verbatim>\<open>p.Get\<close>: whether \<^verbatim>\<open>channel\<close> and
  \<^verbatim>\<open>request\<close> are set, and the strings \<^verbatim>\<open>repoName\<close>, \<^verbatim>\<open>operation\<close> and \<^verbatim>\<open>gitHome\<close>.
  \<^verbatim>\<open>p.Requires("channel", "request")\<close> returns the names that are not set, in the order
  asked; \<^verbatim>\<open>%q\<close> prints a list of strings in brackets, each in double quotes.
\<close>

record params =
  has_channel :: bool
  has_request :: bool
  repoName :: string
  operation :: string
  gitHome :: string

definition missing :: "params \<Rightarrow> string list" where
  "missing ps =
     (if has_channel ps then [] else [''channel'']) @ (if has_request ps then [] else [''request''])"

fun join_with :: "string \<Rightarrow> string list \<Rightarrow> string" where
  "join_with sep [] = []"
| "join_with sep [x] = x"
| "join_with sep (x # y # zs) = x @ sep @ join_with sep (y # zs)"

definition fmt_q :: "string list \<Rightarrow> string" where
  "fmt_q z = ''['' @ join_with '' '' (map (\<lambda>n. [CHR 0x22] @ n @ [CHR 0x22]) z) @ '']''"

text \<open>
  \<^verbatim>\<open>
  func Receive(c cookoo.Context, p *cookoo.Params) (interface{}, cookoo.Interrupt) {
      if ok, z := p.Requires("channel", "request"); !ok {
          return nil, fmt.Errorf("Missing requirements %q", z)
      }
      repoName := p.Get("repoName", "").(string)
      operation := p.Get("operation", "").(string)
      channel := p.Get("channel", nil).(ssh.Channel)
      gitHome := p.Get("gitHome", "/home/git").(string)

      log.Debugf(c, "receiving git repo name: %s, operation: %s, fingerprint: %s, user: %s",
          repoName, operation, sshd.Fingerprint(), "builder")

      repo, err := cleanRepoName(repoName)
      if err != nil {
          channel.Stderr().Write([]byte("No repo given"))
          return nil, err
      }
      repo += ".git"

      repoPath := filepath.Join(gitHome, repo)
      if _, err := createRepo(c, repoPath); err != nil {
          err = fmt.Errorf("Did not create new repo (%s)", err)
          return nil, err
      }
      if err := createPreReceiveHook(c, gitHome, repoPath); err != nil {
          err = fmt.Errorf("Did not write pre-receive hook (%s)", err)
          return nil, err
      }

      cmd := exec.Command("git-shell", "-c", fmt.Sprintf("%s '%s'", operation, repo))
      var errbuff bytes.Buffer
      cmd.Dir = gitHome
      cmd.Env = []string{
          fmt.Sprintf("RECEIVE_USER=%s", "builder"),
          fmt.Sprintf("RECEIVE_REPO=%s", repo),
          fmt.Sprintf("RECEIVE_FINGERPRINT=%s", sshd.Fingerprint()),
          fmt.Sprintf("SSH_ORIGINAL_COMMAND=%s '%s'", operation, repo),
          fmt.Sprintf("SSH_CONNECTION=%s", c.Get("SSH_CONNECTION", "0 0 0 0").(string)),
      }
      cmd.Env = append(cmd.Env, os.Environ()...)
      ... the end of the function, above
  }
  \<close>
  \<open>fingerprint\<close> is what \<^verbatim>\<open>sshd.Fingerprint()\<close> does: it returns a string, or panics when
  the authorized-key file does not parse (it calls \<^verbatim>\<open>key.Marshal()\<close> on the nil key).
  \<open>conn\<close> is the value of \<^verbatim>\<open>SSH_CONNECTION\<close> in the context and \<open>env\<close> the process
  environment. The first component of the result is the error returned, \<open>None\<close> for nil.
\<close>

definition Receive ::
  "params \<Rightarrow> string go \<Rightarrow> (string list \<Rightarrow> string) \<Rightarrow> string \<Rightarrow> environ \<Rightarrow> subprocess \<Rightarrow> world
     \<Rightarrow> error option go \<times> world" where
  "Receive ps fingerprint join conn env sp w =
     (if \<not> (has_channel ps \<and> has_request ps)
      then (Return (Some (''Missing requirements '' @ fmt_q (missing ps))), w)
      else case fingerprint of
        Panic \<Rightarrow> (Panic, w)
      | Return fp \<Rightarrow>
          (case cleanRepoName (repoName ps) of
             Inl e \<Rightarrow> (Return (Some e), w\<lparr>trace := trace w @ [EvChannelStderr ''No repo given'']\<rparr>)
           | Inr name \<Rightarrow>
               (let repo = name @ ''.git'';
                    repoPath = join [gitHome ps, repo]
                in case createRepo repoPath w of
                     (Inl e, w1) \<Rightarrow> (Return (Some (''Did not create new repo ('' @ e @ '')'')), w1)
                   | (Inr created, w1) \<Rightarrow>
                       (case createPreReceiveHook join (gitHome ps) repoPath w1 of
                          (Some e, w2) \<Rightarrow>
                            (Return (Some (''Did not write pre-receive hook ('' @ e @ '')'')), w2)
                        | (None, w2) \<Rightarrow>
                            (case run_git_shell
                                 [''git-shell'', ''-c'', operation ps @ '' '' @ [quote] @ repo @ [quote]]
                                 ([''RECEIVE_USER=builder'',
                                   ''RECEIVE_REPO='' @ repo,
                                   ''RECEIVE_FINGERPRINT='' @ fp,
                                   ''SSH_ORIGINAL_COMMAND='' @ operation ps @ '' '' @ [quote] @ repo @ [quote],
                                   ''SSH_CONNECTION='' @ conn]
                                  @ map (\<lambda>(k, v). k @ ''='' @ v) env)
                                 sp w2 of
                               (r, w3) \<Rightarrow> (Return r, w3))))))"

text \<open>\<^verbatim>\<open>filepath.Join\<close> on elements without an empty, \<open>.\<close> or \<open>..\<close> component and without a
  doubled or trailing slash, where \<^verbatim>\<open>filepath.Clean\<close> changes nothing: the elements that
  are not empty, separated by a slash. It stands for \<open>join\<close> in the runs below.\<close>

definition join_clean :: "string list \<Rightarrow> string" where
  "join_clean elems = join_with ''/'' (filter (\<lambda>e. e \<noteq> []) elems)"

text \<open>
  The invariants of the interleaved runs. A thread is critical from its
  \<^verbatim>\<open>createLock.Lock()\<close> to its \<^verbatim>\<open>createLock.Unlock()\<close>. \<open>mutex_inv\<close>: the mutex is held
  exactly when a thread is critical, and at most one thread is. \<open>repo_inv p g0\<close>, with
  \<open>g0\<close> the number of \<^verbatim>\<open>git init\<close> runs in \<open>p\<close> before the threads start: at most one
  more has run, and then \<open>p\<close> is a directory; a thread about to create the directory has
  seen that \<open>p\<close> names nothing; a thread about to run \<^verbatim>\<open>git init\<close> has created the
  directory and no \<^verbatim>\<open>git init\<close> has run yet. \<open>phase_inv\<close>: the run is before the
  creation of the directory, between it and \<^verbatim>\<open>git init\<close>, or after \<^verbatim>\<open>git init\<close>.
\<close>

definition critical :: "pc \<Rightarrow> bool" where
  "critical c = (case c of Idle \<Rightarrow> False | Done r \<Rightarrow> False | _ \<Rightarrow> True)"

definition mutex_inv :: "sys \<Rightarrow> bool" where
  "mutex_inv s =
     ((locked s = (\<exists>i<length (pcs s). critical (pcs s ! i))) \<and>
      (\<forall>i<length (pcs s). \<forall>j<length (pcs s).
          critical (pcs s ! i) \<and> critical (pcs s ! j) \<longrightarrow> i = j))"

definition repo_inv :: "string \<Rightarrow> nat \<Rightarrow> sys \<Rightarrow> bool" where
  "repo_inv p g0 s =
     ((git_inits p (world_of s) = g0 \<or>
        (git_inits p (world_of s) = Suc g0 \<and> nodes (world_of s) p = Some Dir)) \<and>
      (\<forall>i<length (pcs s). pcs s ! i = AtMkdir \<longrightarrow> nodes (world_of s) p = None) \<and>
      (\<forall>i<length (pcs s). pcs s ! i = AtGitInit \<longrightarrow>
          git_inits p (world_of s) = g0 \<and> nodes (world_of s) p = Some Dir))"

definition phase_inv :: "string \<Rightarrow> world \<Rightarrow> sys \<Rightarrow> bool" where
  "phase_inv p w0 s =
     ((world_of s = w0 \<and>
        (\<forall>j<length (pcs s). pcs s ! j = Idle \<or> pcs s ! j = AtStat \<or> pcs s ! j = AtMkdir)) \<or>
      (git_inits p (world_of s) = git_inits p w0 \<and> (\<exists>j<length (pcs s). pcs s ! j = AtGitInit)) \<or>
      git_inits p (world_of s) = Suc (git_inits p w0))"

text \<open>
  A thread has finished its call once it is past \<^verbatim>\<open>git init\<close>, at the deferred unlock or
  returned. \<open>after_calls p k w\<close> is the world that \<open>k\<close> calls of \<open>createRepo p\<close>, made one
  after the other, leave of \<open>w\<close>. \<open>serial_inv\<close>: the world is the one that the finished
  calls leave when made one after the other, but for a thread about to run \<^verbatim>\<open>git init\<close>,
  which has found that the path named nothing in that world and has created the
  directory in it.
\<close>

definition finished :: "pc \<Rightarrow> bool" where
  "finished c = (case c of Unlocking r \<Rightarrow> True | Done r \<Rightarrow> True | _ \<Rightarrow> False)"

definition calls_done :: "sys \<Rightarrow> nat" where
  "calls_done s = length (filter finished (pcs s))"

definition after_calls :: "string \<Rightarrow> nat \<Rightarrow> world \<Rightarrow> world" where
  "after_calls repoPath k w = ((\<lambda>v. snd (createRepo repoPath v)) ^^ k) w"

definition serial_inv :: "string \<Rightarrow> world \<Rightarrow> sys \<Rightarrow> bool" where
  "serial_inv p w s =
     ((\<forall>i<length (pcs s). pcs s ! i = AtMkdir \<longrightarrow>
         Stat (after_calls p (calls_done s) w) p = NotExist) \<and>
      (\<forall>i<length (pcs s). pcs s ! i = AtGitInit \<longrightarrow>
         Stat (after_calls p (calls_done s) w) p = NotExist \<and>
         MkdirAll p (after_calls p (calls_done s) w) = (None, world_of s)) \<and>
      ((\<forall>i<length (pcs s). pcs s ! i \<noteq> AtGitInit) \<longrightarrow>
         world_of s = after_calls p (calls_done s) w))"

text \<open>The world in which no path names anything and no operation fails.\<close>

definition empty_world :: world where
  "empty_world = \<lparr>nodes = Map.empty, stat_err = Map.empty, mkdir_err = Map.empty,
     git_err = Map.empty, write_err = Map.empty, trace = []\<rparr>"

text \<open>A push of the repository \<open>/demo.git\<close>, and a git-shell whose standard input closes
  while the objects are copied into it, after it has written \<open>fatal: early EOF\<close> to its
  standard error.\<close>

definition demo_params :: params where
  "demo_params = \<lparr>has_channel = True, has_request = True, repoName = ''/demo.git'',
     operation = ''git-receive-pack'', gitHome = ''/home/git''\<rparr>"

definition broken_pipe :: subprocess where
  "broken_pipe = \<lparr>pipe_err = None, start_err = None, copy_err = Some ''write |1: broken pipe'',
     wait_err = None, errbuff_at_start = [], errbuff_at_copy = ''fatal: early EOF'',
     errbuff_at_wait = ''fatal: early EOF''\<rparr>"

section \<open>Properties of the string functions\<close>

text \<open>With a separator or a pattern of one byte, \<open>Split\<close> and \<open>Replace\<close> are structural
  recursions over the string.\<close>

lemma Replace_Cons1:
  "Replace (x # s) [c] [] = (if x = c then Replace s [c] [] else x # Replace s [c] [])"
  apply (subst Replace.simps)
  apply (subst (3) Replace.simps)
  apply (auto split: option.splits)
  done

lemma Replace_Nil1: "Replace [] [c] [] = []"
  by (simp add: Replace.simps)

lemma Replace_filter: "Replace s [c] [] = filter (\<lambda>x. x \<noteq> c) s"
  by (induction s) (simp_all add: Replace_Nil1 Replace_Cons1)

lemma Split_Nil1: "Split [] [c] = [[]]"
  by (simp add: Split.simps)

lemma Split_unfold1:
  "Split s [c] = (case Index s [c] of None \<Rightarrow> [s]
     | Some m \<Rightarrow> take m s # Split (drop (Suc m) s) [c])"
  by (subst Split.simps) (simp split: option.splits)

lemma Split_Cons1:
  "Split (x # s) [c] = (if x = c then [] # Split s [c]
     else (x # hd (Split s [c])) # tl (Split s [c]))"
proof (cases "x = c")
  case True
  then show ?thesis by (subst Split_unfold1) simp
next
  case False
  show ?thesis
  proof (cases "Index s [c]")
    case None
    with False show ?thesis
      by (simp add: Split_unfold1 [of "x # s"] Split_unfold1 [of s])
  next
    case (Some m)
    with False show ?thesis
      by (simp add: Split_unfold1 [of "x # s"] Split_unfold1 [of s])
  qed
qed

lemma Split_ne: "Split s [c] \<noteq> []"
  by (cases s) (simp_all add: Split_Nil1 Split_Cons1)

lemma length_Split: "length (Split s [c]) = Suc (count_list s c)"
  using Split_ne[of s c]
  by (induction s) (auto simp add: Split_Nil1 Split_Cons1 Split_ne)


lemma concat_Split: "hd (Split s [c]) @ concat (map (\<lambda>t. c # t) (tl (Split s [c]))) = s"
proof (induction s)
  case Nil
  show ?case by (simp add: Split_Nil1)
next
  case (Cons x s)
  obtain t ts where sp: "Split s [c] = t # ts"
    using Split_ne [of s c] by (cases "Split s [c]") auto
  with Cons show ?case by (simp add: Split_Cons1)
qed

lemma Split_no_sep: "t \<in> set (Split s [c]) \<Longrightarrow> c \<notin> set t"
proof (induction s arbitrary: t)
  case Nil
  then show ?case by (simp add: Split_Nil1)
next
  case (Cons x s)
  have ne: "Split s [c] \<noteq> []" by (rule Split_ne)
  then have mem: "set (Split s [c]) = insert (hd (Split s [c])) (set (tl (Split s [c])))"
    by (cases "Split s [c]") auto
  show ?case
  proof (cases "x = c")
    case True
    with Cons show ?thesis by (auto simp add: Split_Cons1)
  next
    case False
    with Cons.prems have "t = x # hd (Split s [c]) \<or> t \<in> set (tl (Split s [c]))"
      by (simp add: Split_Cons1)
    then show ?thesis
    proof
      assume "t = x # hd (Split s [c])"
      moreover have "c \<notin> set (hd (Split s [c]))" using Cons.IH mem by blast
      ultimately show ?thesis using False by simp
    next
      assume "t \<in> set (tl (Split s [c]))"
      then show ?thesis using Cons.IH mem by blast
    qed
  qed
qed


lemma HasPrefix_iff: "HasPrefix s pre = (\<exists>t. s = pre @ t)"
proof
  assume "HasPrefix s pre"
  then have "s = pre @ drop (length pre) s"
    by (metis HasPrefix_def append_take_drop_id)
  then show "\<exists>t. s = pre @ t" ..
next
  assume "\<exists>t. s = pre @ t"
  then show "HasPrefix s pre" by (auto simp add: HasPrefix_def)
qed

lemma HasSuffix_iff: "HasSuffix s suf = (\<exists>t. s = t @ suf)"
proof
  assume "HasSuffix s suf"
  then have "s = take (length s - length suf) s @ suf"
    by (metis HasSuffix_def append_take_drop_id)
  then show "\<exists>t. s = t @ suf" ..
next
  assume "\<exists>t. s = t @ suf"
  then show "HasSuffix s suf" by (auto simp add: HasSuffix_def)
qed

lemma HasPrefixI: "s = pre @ t \<Longrightarrow> HasPrefix s pre"
  unfolding HasPrefix_iff by blast

lemma HasSuffixI: "s = t @ suf \<Longrightarrow> HasSuffix s suf"
  unfolding HasSuffix_iff by blast

lemma TrimPrefix_append: "TrimPrefix (pre @ t) pre = t"
  by (simp add: TrimPrefix_def HasPrefix_def)

lemma TrimSuffix_append: "TrimSuffix (t @ suf) suf = t"
  by (simp add: TrimSuffix_def HasSuffix_def)

lemma TrimPrefix_cases:
  "(\<exists>t. s = pre @ t \<and> TrimPrefix s pre = t) \<or> (\<not> HasPrefix s pre \<and> TrimPrefix s pre = s)"
proof (cases "HasPrefix s pre")
  case True
  then obtain t where "s = pre @ t" unfolding HasPrefix_iff ..
  then show ?thesis by (simp add: TrimPrefix_append)
next
  case False
  then show ?thesis by (simp add: TrimPrefix_def)
qed

lemma TrimSuffix_cases:
  "(\<exists>t. s = t @ suf \<and> TrimSuffix s suf = t) \<or> (\<not> HasSuffix s suf \<and> TrimSuffix s suf = s)"
proof (cases "HasSuffix s suf")
  case True
  then obtain t where "s = t @ suf" unfolding HasSuffix_iff ..
  then show ?thesis by (simp add: TrimSuffix_append)
next
  case False
  then show ?thesis by (simp add: TrimSuffix_def)
qed

lemma set_TrimPrefix: "set (TrimPrefix s pre) \<subseteq> set s"
  by (auto simp add: TrimPrefix_def dest: in_set_dropD)

lemma set_TrimSuffix: "set (TrimSuffix s suf) \<subseteq> set s"
  by (auto simp add: TrimSuffix_def dest: in_set_takeD)

text \<open>The two trimmings of \<open>cleanRepoName\<close>, by the four cases of what they remove.\<close>

lemma trim_cases:
  obtains
    (both) u where "q = ''/'' @ u @ ''.git''" and "TrimPrefix (TrimSuffix q ''.git'') ''/'' = u"
  | (suffix) u where "q = u @ ''.git''" and "\<not> HasPrefix u ''/''"
      and "TrimPrefix (TrimSuffix q ''.git'') ''/'' = u"
  | (prefix) u where "q = ''/'' @ u" and "\<not> HasSuffix q ''.git''"
      and "TrimPrefix (TrimSuffix q ''.git'') ''/'' = u"
  | (neither) "\<not> HasPrefix q ''/''" and "\<not> HasSuffix q ''.git''"
      and "TrimPrefix (TrimSuffix q ''.git'') ''/'' = q"
proof (cases "HasSuffix q ''.git''")
  case True
  then obtain v where v: "q = v @ ''.git''" unfolding HasSuffix_iff ..
  have tv: "TrimSuffix q ''.git'' = v" unfolding v by (rule TrimSuffix_append)
  show ?thesis
  proof (cases "HasPrefix v ''/''")
    case True
    then obtain u where u: "v = ''/'' @ u" unfolding HasPrefix_iff ..
    have "TrimPrefix v ''/'' = u" unfolding u by (rule TrimPrefix_append)
    then have "TrimPrefix (TrimSuffix q ''.git'') ''/'' = u" unfolding tv .
    moreover have "q = ''/'' @ u @ ''.git''" unfolding v u by simp
    ultimately show ?thesis by (rule both [rotated])
  next
    case False
    then have "TrimPrefix v ''/'' = v" by (simp add: TrimPrefix_def)
    then have "TrimPrefix (TrimSuffix q ''.git'') ''/'' = v" unfolding tv .
    with v False show ?thesis by (rule suffix)
  qed
next
  case False
  then have tq: "TrimSuffix q ''.git'' = q" by (simp add: TrimSuffix_def)
  show ?thesis
  proof (cases "HasPrefix q ''/''")
    case True
    then obtain u where u: "q = ''/'' @ u" unfolding HasPrefix_iff ..
    have "TrimPrefix (''/'' @ u) ''/'' = u" by (rule TrimPrefix_append)
    then have "TrimPrefix q ''/'' = u" unfolding u [symmetric] .
    then have "TrimPrefix (TrimSuffix q ''.git'') ''/'' = u" unfolding tq .
    with u \<open>\<not> HasSuffix q ''.git''\<close> show ?thesis by (rule prefix)
  next
    case nop: False
    then have "TrimPrefix q ''/'' = q" by (simp add: TrimPrefix_def)
    then have "TrimPrefix (TrimSuffix q ''.git'') ''/'' = q" unfolding tq .
    with nop \<open>\<not> HasSuffix q ''.git''\<close> show ?thesis by (rule neither)
  qed
qed

lemma trim_empty:
  assumes "TrimPrefix (TrimSuffix q ''.git'') ''/'' = []"
  shows "q = [] \<or> q = ''/'' \<or> q = ''.git'' \<or> q = ''/.git''"
proof (cases q rule: trim_cases)
  case (both u)
  from assms have "u = []" unfolding both(2) .
  then show ?thesis unfolding both(1) by simp
next
  case (suffix u)
  from assms have "u = []" unfolding suffix(3) .
  then show ?thesis unfolding suffix(1) by simp
next
  case (prefix u)
  from assms have "u = []" unfolding prefix(3) .
  then show ?thesis unfolding prefix(1) by simp
next
  case neither
  from assms have "q = []" unfolding neither(3) .
  then show ?thesis by simp
qed

lemma trim_slash:
  assumes "HasPrefix (TrimPrefix (TrimSuffix q ''.git'') ''/'') ''/''"
  shows "HasPrefix q ''//''"
proof (cases q rule: trim_cases)
  case (both u)
  from assms have "HasPrefix u ''/''" unfolding both(2) .
  then obtain t where t: "u = ''/'' @ t" unfolding HasPrefix_iff ..
  have "q = ''//'' @ (t @ ''.git'')" unfolding both(1) t by simp
  then show ?thesis by (rule HasPrefixI)
next
  case (suffix u)
  from assms have "HasPrefix u ''/''" unfolding suffix(3) .
  with suffix(2) show ?thesis by blast
next
  case (prefix u)
  from assms have "HasPrefix u ''/''" unfolding prefix(3) .
  then obtain t where t: "u = ''/'' @ t" unfolding HasPrefix_iff ..
  have "q = ''//'' @ t" unfolding prefix(1) t by simp
  then show ?thesis by (rule HasPrefixI)
next
  case neither
  from assms have "HasPrefix q ''/''" unfolding neither(3) .
  with neither(1) show ?thesis by blast
qed

lemma trim_git:
  assumes "HasSuffix (TrimPrefix (TrimSuffix q ''.git'') ''/'') ''.git''"
  shows "HasSuffix q ''.git.git''"
proof (cases q rule: trim_cases)
  case (both u)
  from assms have "HasSuffix u ''.git''" unfolding both(2) .
  then obtain t where t: "u = t @ ''.git''" unfolding HasSuffix_iff ..
  have "q = (''/'' @ t) @ ''.git.git''" unfolding both(1) t by simp
  then show ?thesis by (rule HasSuffixI)
next
  case (suffix u)
  from assms have "HasSuffix u ''.git''" unfolding suffix(3) .
  then obtain t where t: "u = t @ ''.git''" unfolding HasSuffix_iff ..
  have "q = t @ ''.git.git''" unfolding suffix(1) t by simp
  then show ?thesis by (rule HasSuffixI)
next
  case (prefix u)
  from assms have "HasSuffix u ''.git''" unfolding prefix(3) .
  then obtain t where t: "u = t @ ''.git''" unfolding HasSuffix_iff ..
  have "q = (''/'' @ t) @ ''.git''" unfolding prefix(1) t by simp
  then have "HasSuffix q ''.git''" by (rule HasSuffixI)
  with prefix(2) show ?thesis by blast
next
  case neither
  from assms have "HasSuffix q ''.git''" unfolding neither(3) .
  with neither(2) show ?thesis by blast
qed

lemma quote_notin_Replace: "quote \<notin> set (Replace name [quote] [])"
  by (simp add: Replace_filter)


section \<open>Properties of the constant-time comparison\<close>

lemma xor_eq_0_byte: "((a::byte) XOR b = 0) = (a = b)"
proof
  assume "a XOR b = 0"
  then have "(a XOR b) XOR b = 0 XOR b" by simp
  then show "a = b" by (simp add: xor.assoc)
next
  assume "a = b"
  then show "a XOR b = 0" by simp
qed

lemma ConstantTimeByteEq_zero: "ConstantTimeByteEq v 0 = (if v = 0 then 1 else 0)"
proof (cases "v = 0")
  case True
  then show ?thesis by (simp add: ConstantTimeByteEq_def)
next
  case False
  have up: "uint (ucast v :: 32 word) = uint v"
    by (rule uint_up_ucast) (simp add: is_up)
  have "uint v < 256" using uint_bounded [of v] by simp
  moreover have "uint v \<noteq> 0" using False by (simp add: uint_0_iff)
  moreover have "0 \<le> uint v" by (rule uint_ge_0)
  ultimately have rng: "1 \<le> uint v \<and> uint v \<le> 255" by arith
  then have "uint (1 :: 32 word) \<le> uint (ucast v :: 32 word)" by (simp add: up)
  then have "uint ((ucast v :: 32 word) - 1) = uint v - 1"
    using uint_sub_lem [of 1 "ucast v :: 32 word"] by (simp add: up)
  then have "unat ((ucast v :: 32 word) - 1) < 2 ^ 31"
    using rng by (simp add: unat_eq_nat_uint) arith
  then have "unat (drop_bit 31 ((ucast v :: 32 word) - 1)) = 0"
    unfolding unat_drop_bit_eq by (simp add: drop_bit_eq_div)
  then have "drop_bit 31 ((ucast v :: 32 word) - 1) = 0"
    by (simp only: unat_eq_0)
  with False show ?thesis by (simp add: ConstantTimeByteEq_def)
qed

lemma xor_loop_zero:
  "length x = length y \<Longrightarrow> (xor_loop x y v = 0) = (v = 0 \<and> x = y)"
proof (induction x y v rule: xor_loop.induct)
  case (1 a x b y v)
  then show ?case by (auto simp add: or_eq_0_iff xor_eq_0_byte)
qed simp_all

lemma ConstantTimeCompare_eq: "(ConstantTimeCompare x y = 1) = (x = y)"
  by (auto simp add: ConstantTimeCompare_def ConstantTimeByteEq_zero xor_loop_zero)

lemma compareKeys_Some:
  "compareKeys (Some a) (Some b) = Return (Type a = Type b \<and> Marshal a = Marshal b)"
  by (simp add: compareKeys_def ConstantTimeCompare_eq)

lemma flip_bit_neq: "j < 8 \<Longrightarrow> (b::byte) XOR push_bit j 1 \<noteq> b"
proof
  assume j: "j < 8" and "b XOR push_bit j 1 = b"
  then have "b XOR (b XOR push_bit j 1) = b XOR b" by simp
  then have z: "(push_bit j 1 :: byte) = 0" by (simp add: xor.assoc [symmetric])
  from j have "bit (push_bit j 1 :: byte) j" by (simp add: bit_exp_iff)
  then have "bit (0 :: byte) j" by (simp only: z)
  then show False by simp
qed

lemma flip_list_neq:
  assumes "i < length bs" and "j < 8"
  shows "bs[i := (bs ! i) XOR push_bit j 1] \<noteq> (bs :: byte list)"
proof
  assume "bs[i := (bs ! i) XOR push_bit j 1] = bs"
  then have "bs[i := (bs ! i) XOR push_bit j 1] ! i = bs ! i" by simp
  with assms(1) have "(bs ! i) XOR push_bit j 1 = bs ! i" by simp
  with flip_bit_neq [OF assms(2)] show False by blast
qed

section \<open>Claims about \<^verbatim>\<open>cleanRepoName\<close>\<close>

lemmas string_eval =
  cleanRepoName_def Contains_def TrimPrefix_def TrimSuffix_def HasPrefix_def HasSuffix_def
  Replace_filter quote_def

text \<open>
  Claim C3, as amended. \<open>cleanRepoName\<close> returns an error exactly when its input is empty
  or contains \<open>..\<close>. When it succeeds, the name returned contains no single quote; it is
  not empty unless the input without its quotes is one of the empty string, \<open>/\<close>,
  \<open>.git\<close> and \<open>/.git\<close>; it has no leading \<open>/\<close> unless the input without its quotes
  begins with \<open>//\<close>; and it does not end in \<open>.git\<close> unless the input without its quotes
  ends in \<open>.git.git\<close>. One suffix and one prefix are trimmed, not all of them.
\<close>

theorem cleanRepoName_sanitizes:
  "((\<exists>e. cleanRepoName name = Inl e) = (name = [] \<or> Contains name ''..'')) \<and>
   (\<forall>r. cleanRepoName name = Inr r \<longrightarrow>
      quote \<notin> set r \<and>
      (Replace name [quote] [] \<notin> {[], ''/'', ''.git'', ''/.git''} \<longrightarrow> r \<noteq> []) \<and>
      (\<not> HasPrefix (Replace name [quote] []) ''//'' \<longrightarrow> \<not> HasPrefix r ''/'') \<and>
      (\<not> HasSuffix (Replace name [quote] []) ''.git.git'' \<longrightarrow> \<not> HasSuffix r ''.git''))"
proof (intro conjI allI impI)
  show "(\<exists>e. cleanRepoName name = Inl e) = (name = [] \<or> Contains name ''..'')"
    by (simp add: cleanRepoName_def)
next
  fix r assume r: "cleanRepoName name = Inr r"
  let ?q = "Replace name [quote] []"
  from r have eq: "r = TrimPrefix (TrimSuffix ?q ''.git'') ''/''"
    by (simp add: cleanRepoName_def split: if_splits)
  have "set r \<subseteq> set ?q"
    unfolding eq using set_TrimPrefix set_TrimSuffix by blast
  then show "quote \<notin> set r" using quote_notin_Replace by blast
  { assume "?q \<notin> {[], ''/'', ''.git'', ''/.git''}"
    then show "r \<noteq> []" using trim_empty [of ?q] eq by auto }
  { assume "\<not> HasPrefix ?q ''//''"
    then show "\<not> HasPrefix r ''/''" using trim_slash [of ?q] eq by auto }
  { assume "\<not> HasSuffix ?q ''.git.git''"
    then show "\<not> HasSuffix r ''.git''" using trim_git [of ?q] eq by auto }
qed

text \<open>The theorem at the repository name \<open>/demo.git\<close>, which is sanitized to \<open>demo\<close>, and
  at \<open>a/../b\<close>, which is refused.\<close>

theorem cleanRepoName_sanitizes_witness:
  "cleanRepoName ''/demo.git'' = Inr ''demo'' \<and> quote \<notin> set ''demo'' \<and> ''demo'' \<noteq> [] \<and>
   \<not> HasPrefix ''demo'' ''/'' \<and> \<not> HasSuffix ''demo'' ''.git'' \<and>
   (\<exists>e. cleanRepoName ''a/../b'' = Inl e)"
proof -
  have e: "cleanRepoName ''/demo.git'' = Inr ''demo''"
    by (simp add: string_eval)
  have q: "Replace ''/demo.git'' [quote] [] = ''/demo.git''"
    by (simp add: string_eval)
  have h1: "Replace ''/demo.git'' [quote] [] \<notin> {[], ''/'', ''.git'', ''/.git''}"
    by (simp add: q)
  have h2: "\<not> HasPrefix (Replace ''/demo.git'' [quote] []) ''//''"
    by (simp add: q HasPrefix_def)
  have h3: "\<not> HasSuffix (Replace ''/demo.git'' [quote] []) ''.git.git''"
    by (simp add: q HasSuffix_def)
  have c: "Contains ''a/../b'' ''..''"
    by (simp add: Contains_def)
  from cleanRepoName_sanitizes [of "''/demo.git''"] e h1 h2 h3
  have "quote \<notin> set ''demo'' \<and> ''demo'' \<noteq> [] \<and>
   \<not> HasPrefix ''demo'' ''/'' \<and> \<not> HasSuffix ''demo'' ''.git''" by blast
  moreover from cleanRepoName_sanitizes [of "''a/../b''"] c
  have "\<exists>e. cleanRepoName ''a/../b'' = Inl e" by blast
  ultimately show ?thesis using e by blast
qed

text \<open>
  The claim as the spec words it fails: \<open>//a.git.git\<close> is sanitized to \<open>/a.git\<close>, with a
  leading \<open>/\<close> and a trailing \<open>.git\<close>, and \<open>/.git\<close> is sanitized to the empty name.
\<close>

theorem cleanRepoName_result_counterexample:
  "cleanRepoName ''//a.git.git'' = Inr ''/a.git'' \<and>
   HasPrefix ''/a.git'' ''/'' \<and> HasSuffix ''/a.git'' ''.git'' \<and>
   cleanRepoName ''/.git'' = Inr []"
  by (simp add: string_eval)

text \<open>
  Claim C7, as amended. When \<open>cleanRepoName\<close> succeeds with a name that is not empty,
  contains no \<open>..\<close>, has no leading \<open>/\<close> and does not end in \<open>.git\<close>, sanitizing that
  name again succeeds and returns it unchanged.
\<close>

theorem cleanRepoName_idempotent_on_clean:
  assumes "cleanRepoName name = Inr r" and "r \<noteq> []" and "\<not> Contains r ''..''"
    and "\<not> HasPrefix r ''/''" and "\<not> HasSuffix r ''.git''"
  shows "cleanRepoName r = Inr r"
proof -
  from assms(1) have "r = TrimPrefix (TrimSuffix (Replace name [quote] []) ''.git'') ''/''"
    by (simp add: cleanRepoName_def split: if_splits)
  then have "set r \<subseteq> set (Replace name [quote] [])"
    using set_TrimPrefix set_TrimSuffix by blast
  then have "quote \<notin> set r" using quote_notin_Replace by blast
  then have "\<forall>x\<in>set r. x \<noteq> quote" by blast
  then have q: "Replace r [quote] [] = r" by (simp add: Replace_filter)
  from assms(5) have "TrimSuffix r ''.git'' = r" by (simp add: TrimSuffix_def)
  moreover from assms(4) have "TrimPrefix r ''/'' = r" by (simp add: TrimPrefix_def)
  ultimately show ?thesis using assms(2,3) q
    by (simp add: cleanRepoName_def)
qed

theorem cleanRepoName_idempotent_on_clean_witness:
  "cleanRepoName ''/demo.git'' = Inr ''demo'' \<and> cleanRepoName ''demo'' = Inr ''demo''"
proof -
  have e: "cleanRepoName ''/demo.git'' = Inr ''demo''"
    by (simp add: string_eval)
  have h2: "''demo'' \<noteq> []" by simp
  have h3: "\<not> Contains ''demo'' ''..''" by (simp add: Contains_def)
  have h4: "\<not> HasPrefix ''demo'' ''/''" by (simp add: HasPrefix_def)
  have h5: "\<not> HasSuffix ''demo'' ''.git''" by (simp add: HasSuffix_def)
  from cleanRepoName_idempotent_on_clean [OF e h2 h3 h4 h5] e show ?thesis by simp
qed

text \<open>
  Idempotence fails on the input \<open>//demo\<close>: it is sanitized to \<open>/demo\<close>, and \<open>/demo\<close> is
  sanitized to \<open>demo\<close>.
\<close>

theorem cleanRepoName_idempotent_counterexample:
  "cleanRepoName ''//demo'' = Inr ''/demo'' \<and> cleanRepoName ''/demo'' = Inr ''demo'' \<and>
   cleanRepoName ''/demo'' \<noteq> Inr ''/demo''"
  by (simp add: string_eval)

text \<open>The test for \<open>..\<close> comes before the quotes are removed: the name \<open>.'.\<close> passes it
  and is sanitized to \<open>..\<close>, which a second call refuses.\<close>

lemma cleanRepoName_quote_traversal:
  "cleanRepoName (''.'' @ [quote] @ ''.'') = Inr ''..'' \<and>
   cleanRepoName ''..'' = Inl ''Cannot change directory in file name.''"
  by (simp add: string_eval)

section \<open>Claims about \<^verbatim>\<open>readLine\<close>\<close>

lemma list3: "(length xs = 3) = (\<exists>a b c. xs = [a, b, c])"
  by (auto simp add: length_Suc_conv eval_nat_numeral)

lemma Split_Cons_case:
  "Split (x # s) [c] =
     (if x = c then [] # Split s [c]
      else case Split s [c] of [] \<Rightarrow> [] | t # ts \<Rightarrow> (x # t) # ts)"
  using Split_ne [of s c] by (cases "Split s [c]") (simp_all add: Split_Cons1)

text \<open>
  Claim C6. \<open>readLine\<close> succeeds exactly when splitting the line at single spaces gives
  three tokens, which is when the line holds exactly two spaces, and it then returns the
  three tokens in order; otherwise it returns the error that names the line. The line
  \<open>abc123 def456 refs/heads/master\<close> parses to its three tokens; \<open>abc123 def456\<close> and
  \<open>a b c d\<close> are refused.
\<close>

theorem readLine_three_tokens:
  "((readLine line = Inr (a, b, c)) = (Split line '' '' = [a, b, c])) \<and>
   ((\<exists>t. readLine line = Inr t) = (length (Split line '' '') = 3)) \<and>
   ((readLine line = Inl (''malformed line ['' @ line @ '']'')) = (length (Split line '' '') \<noteq> 3)) \<and>
   ((\<exists>t. readLine line = Inr t) = (count_list line CHR '' '' = 2)) \<and>
   readLine ''abc123 def456 refs/heads/master'' = Inr (''abc123'', ''def456'', ''refs/heads/master'') \<and>
   readLine ''abc123 def456'' = Inl ''malformed line [abc123 def456]'' \<and>
   readLine ''a b c d'' = Inl ''malformed line [a b c d]''"
proof (intro conjI)
  show "(readLine line = Inr (a, b, c)) = (Split line '' '' = [a, b, c])"
    by (auto simp add: readLine_def Let_def list3)
  show "(\<exists>t. readLine line = Inr t) = (length (Split line '' '') = 3)"
    by (simp add: readLine_def Let_def)
  show "(readLine line = Inl (''malformed line ['' @ line @ '']'')) = (length (Split line '' '') \<noteq> 3)"
    by (simp add: readLine_def Let_def)
  show "(\<exists>t. readLine line = Inr t) = (count_list line CHR '' '' = 2)"
    by (simp add: readLine_def Let_def length_Split)
  show "readLine ''abc123 def456 refs/heads/master'' = Inr (''abc123'', ''def456'', ''refs/heads/master'')"
    by (simp add: readLine_def Let_def Split_Cons_case Split_Nil1)
  show "readLine ''abc123 def456'' = Inl ''malformed line [abc123 def456]''"
    by (simp add: readLine_def Let_def Split_Cons_case Split_Nil1)
  show "readLine ''a b c d'' = Inl ''malformed line [a b c d]''"
    by (simp add: readLine_def Let_def Split_Cons_case Split_Nil1)
qed

section \<open>Claims about \<^verbatim>\<open>AuthKey\<close>\<close>

text \<open>
  Claim C1. When the authorized-key file is read and parsed to the key \<open>allowed\<close>,
  \<open>AuthKey\<close> returns the permissions with the extension \<open>user = builder\<close> for a presented
  key exactly when the key has the type and the marshaled bytes of \<open>allowed\<close>, and returns
  no permissions for every other key. In particular the key obtained from \<open>allowed\<close> by
  flipping bit \<open>j\<close> of byte \<open>i\<close> of its marshaled bytes is refused.
\<close>

theorem AuthKey_grants_iff:
  assumes "readFile ''/etc/deistest.pub'' = Some bs"
    and "ParseAuthorizedKey parseKey bs = Some allowed"
  shows "AuthKey readFile parseKey (Some k) =
           (if Type k = Type allowed \<and> Marshal k = Marshal allowed
            then Return (Some \<lparr>CriticalOptions = [], Extensions = [(''user'', ''builder'')]\<rparr>)
            else Return None) \<and>
         (\<forall>i j. i < length (Marshal allowed) \<and> j < 8 \<longrightarrow>
            AuthKey readFile parseKey
              (Some (allowed\<lparr>Marshal := (Marshal allowed)[i := (Marshal allowed ! i) XOR push_bit j 1]\<rparr>))
            = Return None)"
proof -
  have main: "\<And>k. AuthKey readFile parseKey (Some k) =
           (if Type k = Type allowed \<and> Marshal k = Marshal allowed
            then Return (Some \<lparr>CriticalOptions = [], Extensions = [(''user'', ''builder'')]\<rparr>)
            else Return None)"
    using assms by (simp add: AuthKey_def compareKeys_Some split: bool.splits)
  show ?thesis
  proof (intro conjI allI impI)
    show "AuthKey readFile parseKey (Some k) =
           (if Type k = Type allowed \<and> Marshal k = Marshal allowed
            then Return (Some \<lparr>CriticalOptions = [], Extensions = [(''user'', ''builder'')]\<rparr>)
            else Return None)" by (rule main)
  next
    fix i j :: nat
    assume "i < length (Marshal allowed) \<and> j < 8"
    then have "(Marshal allowed)[i := (Marshal allowed ! i) XOR push_bit j 1] \<noteq> Marshal allowed"
      using flip_list_neq by blast
    then show "AuthKey readFile parseKey
              (Some (allowed\<lparr>Marshal := (Marshal allowed)[i := (Marshal allowed ! i) XOR push_bit j 1]\<rparr>))
            = Return None"
      by (simp add: main)
  qed
qed

text \<open>The theorem at an authorized key with the marshaled bytes \<open>1, 2, 3\<close>: the key itself
  is granted a session, and the key whose last byte has its lowest bit flipped is not.\<close>

theorem AuthKey_grants_iff_witness:
  "AuthKey [''/etc/deistest.pub'' \<mapsto> [0x41]]
     (map_of [([0x41], \<lparr>Type = ''ssh-ed25519'', Marshal = [1, 2, 3]\<rparr>)])
     (Some \<lparr>Type = ''ssh-ed25519'', Marshal = [1, 2, 3]\<rparr>)
     = Return (Some \<lparr>CriticalOptions = [], Extensions = [(''user'', ''builder'')]\<rparr>) \<and>
   AuthKey [''/etc/deistest.pub'' \<mapsto> [0x41]]
     (map_of [([0x41], \<lparr>Type = ''ssh-ed25519'', Marshal = [1, 2, 3]\<rparr>)])
     (Some \<lparr>Type = ''ssh-ed25519'', Marshal = [1, 2, 2]\<rparr>)
     = Return None"
proof -
  let ?rf = "[''/etc/deistest.pub'' \<mapsto> [0x41 :: byte]]"
  let ?allowed = "\<lparr>Type = ''ssh-ed25519'', Marshal = [1, 2, 3 :: byte]\<rparr>"
  let ?pk = "map_of [([0x41 :: byte], ?allowed)]"
  have h1: "?rf ''/etc/deistest.pub'' = Some [0x41]" by simp
  have h2: "ParseAuthorizedKey ?pk [0x41] = Some ?allowed"
    by (simp add: ParseAuthorizedKey_def)
  note T = AuthKey_grants_iff [where readFile = ?rf and parseKey = ?pk and k = ?allowed, OF h1 h2]
  from T have "AuthKey ?rf ?pk (Some ?allowed)
      = Return (Some \<lparr>CriticalOptions = [], Extensions = [(''user'', ''builder'')]\<rparr>)"
    by simp
  moreover have "(2::nat) < length (Marshal ?allowed) \<and> (0::nat) < 8" by simp
  with T have "AuthKey ?rf ?pk
      (Some (?allowed\<lparr>Marshal := (Marshal ?allowed)[2 := (Marshal ?allowed ! 2) XOR push_bit 0 1]\<rparr>))
      = Return None" by blast
  then have "AuthKey ?rf ?pk (Some \<lparr>Type = ''ssh-ed25519'', Marshal = [1, 2, 2]\<rparr>) = Return None"
    by simp
  ultimately show ?thesis by simp
qed

text \<open>
  Claim C2 does not hold of the code. When the authorized-key file cannot be read, or is
  read and does not parse, \<^verbatim>\<open>ssh.ParseAuthorizedKey\<close> returns a nil key; the error is
  printed and the key is used all the same, and \<^verbatim>\<open>compareKeys\<close> panics on the call
  \<^verbatim>\<open>b.Type()\<close> of the nil key, for every presented key.
\<close>

theorem AuthKey_without_authorized_key_panics:
  assumes "readFile ''/etc/deistest.pub'' = None \<or>
           (\<exists>bs. readFile ''/etc/deistest.pub'' = Some bs \<and> ParseAuthorizedKey parseKey bs = None)"
  shows "AuthKey readFile parseKey (Some k) = Panic"
  using assms by (auto simp add: AuthKey_def compareKeys_def ParseAuthorizedKey_def)

theorem AuthKey_without_authorized_key_panics_witness:
  "AuthKey Map.empty (map_of []) (Some \<lparr>Type = ''ssh-ed25519'', Marshal = [1, 2, 3]\<rparr>) = Panic"
proof -
  have h: "(Map.empty :: string \<Rightarrow> byte list option) ''/etc/deistest.pub'' = None \<or>
      (\<exists>bs. (Map.empty :: string \<Rightarrow> byte list option) ''/etc/deistest.pub'' = Some bs \<and>
         ParseAuthorizedKey (map_of []) bs = None)"
    by simp
  from AuthKey_without_authorized_key_panics
    [where readFile = Map.empty and parseKey = "map_of []", OF h]
  show ?thesis .
qed

section \<open>Claims about \<^verbatim>\<open>NewSlugBuilderInfo\<close>\<close>

text \<open>Two keys built around short SHAs of one length are equal only when the application
  names and the short SHAs are.\<close>

lemma key_inj:
  assumes "length s1 = length s2"
  shows "(p @ a1 @ m @ s1 @ e = p @ a2 @ m @ s2 @ e) = (a1 = a2 \<and> s1 = s2)"
proof -
  have "(a1 @ (m @ s1 @ e) = a2 @ (m @ s2 @ e)) = (a1 = a2 \<and> m @ s1 @ e = m @ s2 @ e)"
    using assms by (intro append_eq_append_conv disjI2) simp
  then show ?thesis by simp
qed

text \<open>
  Claim C5. \<open>NewSlugBuilderInfo appName slugName sha\<close> returns the tar key
  \<open>home/<slugName>/tar\<close>, the push key \<open>home/<appName>:git-<short SHA>/push\<close> and the
  slug key \<open>home/<appName>:git-<short SHA>/slug\<close>, and each URL is the storage endpoint
  \<open>http://<DEIS_BUILDER_SERVICE_HOST>:3000\<close> followed by \<open>/git/\<close> and the key; the accessors
  return the fields.
\<close>

theorem NewSlugBuilderInfo_keys:
  "pushKey (NewSlugBuilderInfo env appName slugName gitSha) =
     ''home/'' @ appName @ '':git-'' @ Short gitSha @ ''/push'' \<and>
   slugKey (NewSlugBuilderInfo env appName slugName gitSha) =
     ''home/'' @ appName @ '':git-'' @ Short gitSha @ ''/slug'' \<and>
   tarKey (NewSlugBuilderInfo env appName slugName gitSha) = ''home/'' @ slugName @ ''/tar'' \<and>
   pushURL (NewSlugBuilderInfo env appName slugName gitSha) =
     (''http://'' @ Getenv env ''DEIS_BUILDER_SERVICE_HOST'' @ '':3000'') @ ''/git/'' @
     pushKey (NewSlugBuilderInfo env appName slugName gitSha) \<and>
   slugURL (NewSlugBuilderInfo env appName slugName gitSha) =
     (''http://'' @ Getenv env ''DEIS_BUILDER_SERVICE_HOST'' @ '':3000'') @ ''/git/'' @
     slugKey (NewSlugBuilderInfo env appName slugName gitSha) \<and>
   tarURL (NewSlugBuilderInfo env appName slugName gitSha) =
     (''http://'' @ Getenv env ''DEIS_BUILDER_SERVICE_HOST'' @ '':3000'') @ ''/git/'' @
     tarKey (NewSlugBuilderInfo env appName slugName gitSha) \<and>
   PushKey (NewSlugBuilderInfo env appName slugName gitSha) =
     pushKey (NewSlugBuilderInfo env appName slugName gitSha) \<and>
   PushURL (NewSlugBuilderInfo env appName slugName gitSha) =
     pushURL (NewSlugBuilderInfo env appName slugName gitSha) \<and>
   TarKey (NewSlugBuilderInfo env appName slugName gitSha) =
     tarKey (NewSlugBuilderInfo env appName slugName gitSha) \<and>
   TarURL (NewSlugBuilderInfo env appName slugName gitSha) =
     tarURL (NewSlugBuilderInfo env appName slugName gitSha) \<and>
   SlugURL (NewSlugBuilderInfo env appName slugName gitSha) =
     slugURL (NewSlugBuilderInfo env appName slugName gitSha)"
  by (simp add: NewSlugBuilderInfo_def Let_def PushKey_def PushURL_def TarKey_def TarURL_def
      SlugURL_def)

text \<open>The application \<open>demo\<close> at the short SHA \<open>12345678\<close>, with the builder service at
  \<open>10.0.0.7\<close>.\<close>

lemma NewSlugBuilderInfo_example:
  "NewSlugBuilderInfo [(''DEIS_BUILDER_SERVICE_HOST'', ''10.0.0.7'')] ''demo'' ''demo'' (SHA ''12345678'') =
     \<lparr>pushKey = ''home/demo:git-12345678/push'',
      pushURL = ''http://10.0.0.7:3000/git/home/demo:git-12345678/push'',
      tarKey = ''home/demo/tar'',
      tarURL = ''http://10.0.0.7:3000/git/home/demo/tar'',
      slugKey = ''home/demo:git-12345678/slug'',
      slugURL = ''http://10.0.0.7:3000/git/home/demo:git-12345678/slug''\<rparr>"
  by (simp add: NewSlugBuilderInfo_def Let_def Getenv_def)

text \<open>
  Claim C4, as amended. For two invocations in one environment whose short SHAs have the
  same length, the push key, the push URL, the slug key and the slug URL of the two are
  equal exactly when the application names and the short SHAs are equal; the tar key and
  the tar URL are equal exactly when the slug names are equal, whatever the application
  names and the SHAs are. So identical inputs give identical keys and URLs, and distinct
  \<open>(appName, shortSHA)\<close> pairs give distinct push and slug locations.
\<close>

theorem NewSlugBuilderInfo_distinct:
  assumes "length (Short sha1) = length (Short sha2)"
  shows
  "((pushKey (NewSlugBuilderInfo env a1 n1 sha1) = pushKey (NewSlugBuilderInfo env a2 n2 sha2))
      = (a1 = a2 \<and> Short sha1 = Short sha2)) \<and>
   ((pushURL (NewSlugBuilderInfo env a1 n1 sha1) = pushURL (NewSlugBuilderInfo env a2 n2 sha2))
      = (a1 = a2 \<and> Short sha1 = Short sha2)) \<and>
   ((slugKey (NewSlugBuilderInfo env a1 n1 sha1) = slugKey (NewSlugBuilderInfo env a2 n2 sha2))
      = (a1 = a2 \<and> Short sha1 = Short sha2)) \<and>
   ((slugURL (NewSlugBuilderInfo env a1 n1 sha1) = slugURL (NewSlugBuilderInfo env a2 n2 sha2))
      = (a1 = a2 \<and> Short sha1 = Short sha2)) \<and>
   ((tarKey (NewSlugBuilderInfo env a1 n1 sha1) = tarKey (NewSlugBuilderInfo env a2 n2 sha2))
      = (n1 = n2)) \<and>
   ((tarURL (NewSlugBuilderInfo env a1 n1 sha1) = tarURL (NewSlugBuilderInfo env a2 n2 sha2))
      = (n1 = n2))"
proof -
  have k: "\<And>e. (''home/'' @ a1 @ '':git-'' @ Short sha1 @ e = ''home/'' @ a2 @ '':git-'' @ Short sha2 @ e)
      = (a1 = a2 \<and> Short sha1 = Short sha2)"
    using assms by (rule key_inj)
  show ?thesis
    using k [of "''/push''"] k [of "''/slug''"]
    by (simp add: NewSlugBuilderInfo_def Let_def)
qed

text \<open>The theorem at the application \<open>demo\<close> with two commits, and at two applications with
  one commit.\<close>

theorem NewSlugBuilderInfo_distinct_witness:
  "pushKey (NewSlugBuilderInfo [] ''demo'' ''demo'' (SHA ''12345678''))
     \<noteq> pushKey (NewSlugBuilderInfo [] ''demo'' ''demo'' (SHA ''87654321'')) \<and>
   slugURL (NewSlugBuilderInfo [] ''demo'' ''demo'' (SHA ''12345678''))
     \<noteq> slugURL (NewSlugBuilderInfo [] ''demo2'' ''demo'' (SHA ''12345678''))"
proof -
  have h: "length (Short (SHA ''12345678'')) = length (Short (SHA ''87654321''))" by simp
  have h': "length (Short (SHA ''12345678'')) = length (Short (SHA ''12345678''))" by simp
  from NewSlugBuilderInfo_distinct [OF h, of "[]" "''demo''" "''demo''" "''demo''" "''demo''"]
    NewSlugBuilderInfo_distinct [OF h', of "[]" "''demo''" "''demo''" "''demo2''" "''demo''"]
  show ?thesis by simp
qed

text \<open>
  The claim as the spec words it fails for the tar location: two pushes of the application
  \<open>demo\<close> (slug name \<open>demo\<close>) at the distinct short SHAs \<open>12345678\<close> and \<open>87654321\<close> have
  the same tar key and the same tar URL.
\<close>

theorem NewSlugBuilderInfo_tar_counterexample:
  "(''demo'', Short (SHA ''12345678'')) \<noteq> (''demo'', Short (SHA ''87654321'')) \<and>
   tarKey (NewSlugBuilderInfo [] ''demo'' ''demo'' (SHA ''12345678''))
     = tarKey (NewSlugBuilderInfo [] ''demo'' ''demo'' (SHA ''87654321'')) \<and>
   tarURL (NewSlugBuilderInfo [] ''demo'' ''demo'' (SHA ''12345678''))
     = tarURL (NewSlugBuilderInfo [] ''demo'' ''demo'' (SHA ''87654321''))"
  by (simp add: NewSlugBuilderInfo_def Let_def)

section \<open>Properties of the file-system operations\<close>

lemma Stat_NotExist: "(Stat w p = NotExist) = (stat_err w p = None \<and> nodes w p = None)"
  by (simp add: Stat_def split: option.splits node.splits)

lemma MkdirAll_ok:
  assumes "MkdirAll p w = (None, w1)"
  shows "nodes w1 p = Some Dir" and "trace w1 = trace w @ [EvMkdirAll p]"
    and "stat_err w1 = stat_err w" and "git_err w1 = git_err w" and "mkdir_err w1 = mkdir_err w"
  using assms by (auto simp add: MkdirAll_def Let_def split: option.splits)

lemma MkdirAll_fail:
  assumes "MkdirAll p w = (Some e, w1)"
  shows "w1 = w\<lparr>trace := trace w @ [EvMkdirAll p]\<rparr>"
  using assms by (auto simp add: MkdirAll_def Let_def split: option.splits)

lemma bare_layout_other: "map_of (bare_layout p) p = None"
  by (simp add: bare_layout_def)

lemma GitInit_any:
  assumes "GitInit p w = (r, w2)"
  shows "nodes w2 p = nodes w p" and "trace w2 = trace w @ [EvGitInit p]"
    and "stat_err w2 = stat_err w" and "git_err w2 = git_err w" and "mkdir_err w2 = mkdir_err w"
  using assms
  by (auto simp add: GitInit_def Let_def map_add_def bare_layout_other split: option.splits)

lemma git_inits_MkdirAll: "MkdirAll p w = (r, w1) \<Longrightarrow> git_inits p w1 = git_inits p w"
  by (auto simp add: MkdirAll_def Let_def git_inits_def split: option.splits)

lemma nodes_MkdirAll_fail: "MkdirAll p w = (Some e, w1) \<Longrightarrow> nodes w1 = nodes w"
  by (auto simp add: MkdirAll_def Let_def split: option.splits)

lemma git_inits_GitInit: "GitInit p w = (r, w2) \<Longrightarrow> git_inits p w2 = Suc (git_inits p w)"
  by (auto simp add: GitInit_def Let_def git_inits_def split: option.splits)

lemma empty_world_simps:
  "nodes empty_world p = None" "stat_err empty_world p = None" "mkdir_err empty_world p = None"
  "git_err empty_world p = None" "write_err empty_world p = None" "trace empty_world = []"
  by (simp_all add: empty_world_def)

lemma find_False: "find (\<lambda>q. False) xs = None"
  by (simp add: find_None_iff)

lemmas world_eval =
  Stat_def MkdirAll_def GitInit_def Let_def find_False empty_world_simps bare_layout_def
  map_add_def git_inits_def

lemma Stat_empty_world: "Stat empty_world p = NotExist"
  by (simp add: world_eval)

lemma MkdirAll_empty_world: "fst (MkdirAll p empty_world) = None"
  by (simp add: world_eval)

section \<open>Claims about \<^verbatim>\<open>createRepo\<close>\<close>

text \<open>
  Claim C9. When a call of \<open>createRepo\<close> returns true with a nil error, it has run
  \<^verbatim>\<open>os.MkdirAll\<close> and \<^verbatim>\<open>git init --bare\<close> once each and the path is a directory; a second
  call with the same path in the world the first call left returns false with a nil
  error and leaves that world as it is: nothing is added to the trace, so no directory
  is created and no \<^verbatim>\<open>git init\<close> is run, and no node changes.
\<close>

theorem createRepo_second_call:
  assumes "fst (createRepo repoPath w) = Inr True"
  shows "createRepo repoPath (snd (createRepo repoPath w)) = (Inr False, snd (createRepo repoPath w)) \<and>
         trace (snd (createRepo repoPath w)) = trace w @ [EvMkdirAll repoPath, EvGitInit repoPath] \<and>
         nodes (snd (createRepo repoPath w)) repoPath = Some Dir"
proof -
  from assms have st: "Stat w repoPath = NotExist"
    by (auto simp add: createRepo_def split: stat.splits prod.splits option.splits)
  obtain r1 w1 where m: "MkdirAll repoPath w = (r1, w1)" by (cases "MkdirAll repoPath w")
  obtain r2 w2 where g: "GitInit repoPath w1 = (r2, w2)" by (cases "GitInit repoPath w1")
  from assms st m g have r: "r1 = None" "r2 = None"
    by (auto simp add: createRepo_def split: option.splits)
  with st m g have w': "snd (createRepo repoPath w) = w2"
    by (simp add: createRepo_def)
  from st have "stat_err w repoPath = None" by (simp add: Stat_NotExist)
  with MkdirAll_ok [OF m [unfolded r]] GitInit_any [OF g]
  have "stat_err w2 repoPath = None" and "nodes w2 repoPath = Some Dir"
    and "trace w2 = trace w @ [EvMkdirAll repoPath, EvGitInit repoPath]"
    by simp_all
  then show ?thesis unfolding w' by (simp add: createRepo_def Stat_def)
qed

text \<open>The theorem at the path \<open>/home/git/demo.git\<close> in the empty world.\<close>

lemma createRepo_empty_world: "fst (createRepo ''/home/git/demo.git'' empty_world) = Inr True"
  by (simp add: createRepo_def Stat_def MkdirAll_def GitInit_def Let_def find_False
      empty_world_simps)

theorem createRepo_second_call_witness:
  "fst (createRepo ''/home/git/demo.git'' empty_world) = Inr True \<and>
   createRepo ''/home/git/demo.git'' (snd (createRepo ''/home/git/demo.git'' empty_world))
     = (Inr False, snd (createRepo ''/home/git/demo.git'' empty_world)) \<and>
   trace (snd (createRepo ''/home/git/demo.git'' empty_world))
     = [EvMkdirAll ''/home/git/demo.git'', EvGitInit ''/home/git/demo.git'']"
proof -
  have h: "fst (createRepo ''/home/git/demo.git'' empty_world) = Inr True"
    by (rule createRepo_empty_world)
  from createRepo_second_call [OF h] h show ?thesis
    by (simp add: empty_world_simps)
qed

section \<open>Interleaved calls of \<^verbatim>\<open>createRepo\<close>\<close>

text \<open>What one step of a thread does, by the point the thread is at.\<close>

lemma critical_simps [simp]:
  "\<not> critical Idle" "critical AtStat" "critical AtMkdir" "critical AtGitInit"
  "critical (Unlocking r)" "\<not> critical (Done r)"
  by (simp_all add: critical_def)

lemma step_outside: "length (pcs s) \<le> i \<Longrightarrow> thread_step p i s = s"
  by (simp add: thread_step_def)

lemma step_Idle:
  assumes "i < length (pcs s)" and "pcs s ! i = Idle"
  shows "thread_step p i s =
    (if locked s then s else s\<lparr>locked := True, pcs := (pcs s)[i := AtStat]\<rparr>)"
  using assms by (simp add: thread_step_def)

lemma step_AtStat:
  assumes "i < length (pcs s)" and "pcs s ! i = AtStat"
  shows "\<exists>c. thread_step p i s = s\<lparr>pcs := (pcs s)[i := c]\<rparr> \<and>
     ((c = AtMkdir \<and> Stat (world_of s) p = NotExist) \<or>
      (\<exists>r. c = Unlocking r \<and> Stat (world_of s) p \<noteq> NotExist))"
  using assms by (cases "Stat (world_of s) p") (fastforce simp add: thread_step_def)+

lemma step_AtMkdir:
  assumes "i < length (pcs s)" and "pcs s ! i = AtMkdir"
  shows "\<exists>c r w1. thread_step p i s = s\<lparr>world_of := w1, pcs := (pcs s)[i := c]\<rparr> \<and>
     MkdirAll p (world_of s) = (r, w1) \<and>
     ((r = None \<and> c = AtGitInit) \<or> (\<exists>e. r = Some e \<and> c = Unlocking (Inl e)))"
proof -
  obtain r w1 where m: "MkdirAll p (world_of s) = (r, w1)" by (cases "MkdirAll p (world_of s)")
  with assms show ?thesis by (cases r) (fastforce simp add: thread_step_def)+
qed

lemma step_AtGitInit:
  assumes "i < length (pcs s)" and "pcs s ! i = AtGitInit"
  shows "\<exists>r w2 res. thread_step p i s = s\<lparr>world_of := w2, pcs := (pcs s)[i := Unlocking res]\<rparr> \<and>
     GitInit p (world_of s) = (r, w2)"
proof -
  obtain r w2 where g: "GitInit p (world_of s) = (r, w2)" by (cases "GitInit p (world_of s)")
  with assms show ?thesis by (cases r) (fastforce simp add: thread_step_def)+
qed

lemma step_Unlocking:
  assumes "i < length (pcs s)" and "pcs s ! i = Unlocking r"
  shows "thread_step p i s = s\<lparr>locked := False, pcs := (pcs s)[i := Done r]\<rparr>"
  using assms by (simp add: thread_step_def)

lemma step_Done:
  assumes "i < length (pcs s)" and "pcs s ! i = Done r"
  shows "thread_step p i s = s"
  using assms by (simp add: thread_step_def)

lemma mutex_inv_keep:
  assumes "mutex_inv s" and "i < length (pcs s)" and "critical (pcs s ! i)" and "critical c"
  shows "mutex_inv (s\<lparr>world_of := w, pcs := (pcs s)[i := c]\<rparr>)"
proof -
  from assms have l: "locked s" and only: "\<forall>j<length (pcs s). critical (pcs s ! j) \<longrightarrow> j = i"
    by (auto simp add: mutex_inv_def)
  show ?thesis unfolding mutex_inv_def using l only assms(2,4)
    by (auto simp add: nth_list_update)
qed

lemma mutex_inv_step:
  assumes "mutex_inv s"
  shows "mutex_inv (thread_step p i s)"
proof (cases "length (pcs s) \<le> i")
  case True
  with assms show ?thesis by (simp add: step_outside)
next
  case False
  then have i: "i < length (pcs s)" by simp
  show ?thesis
  proof (cases "pcs s ! i")
    case Idle
    show ?thesis
    proof (cases "locked s")
      case True
      with Idle i assms show ?thesis by (simp add: step_Idle)
    next
      case False
      with assms have none: "\<forall>j<length (pcs s). \<not> critical (pcs s ! j)"
        by (simp add: mutex_inv_def)
      from False Idle i have eq: "thread_step p i s = s\<lparr>locked := True, pcs := (pcs s)[i := AtStat]\<rparr>"
        by (simp add: step_Idle)
      show ?thesis unfolding eq mutex_inv_def using none i
        by (auto simp add: nth_list_update)
    qed
  next
    case AtStat
    from step_AtStat [OF i AtStat, of p] obtain c
      where eq: "thread_step p i s = s\<lparr>pcs := (pcs s)[i := c]\<rparr>" and c: "critical c"
      by auto
    from mutex_inv_keep [OF assms i _ c, of "world_of s"] AtStat show ?thesis
      unfolding eq by simp
  next
    case AtMkdir
    from step_AtMkdir [OF i AtMkdir, of p] obtain c w1
      where eq: "thread_step p i s = s\<lparr>world_of := w1, pcs := (pcs s)[i := c]\<rparr>"
        and c: "critical c"
      by auto
    from mutex_inv_keep [OF assms i _ c, of w1] AtMkdir show ?thesis
      unfolding eq by simp
  next
    case AtGitInit
    from step_AtGitInit [OF i AtGitInit, of p] obtain res w2
      where eq: "thread_step p i s = s\<lparr>world_of := w2, pcs := (pcs s)[i := Unlocking res]\<rparr>"
      by auto
    from mutex_inv_keep [OF assms i, of "Unlocking res" w2] AtGitInit show ?thesis
      unfolding eq by simp
  next
    case (Unlocking r)
    then have c: "critical (pcs s ! i)" by simp
    with assms i have only: "\<forall>j<length (pcs s). critical (pcs s ! j) \<longrightarrow> j = i"
      by (auto simp add: mutex_inv_def)
    from Unlocking i have eq: "thread_step p i s = s\<lparr>locked := False, pcs := (pcs s)[i := Done r]\<rparr>"
      by (simp add: step_Unlocking)
    show ?thesis unfolding eq mutex_inv_def using only i
      by (auto simp add: nth_list_update)
  next
    case (Done r)
    with i assms show ?thesis by (simp add: step_Done)
  qed
qed

lemma mutex_others:
  assumes "mutex_inv s" and "i < length (pcs s)" and "critical (pcs s ! i)"
    and "j < length (pcs s)" and "j \<noteq> i"
  shows "\<not> critical (pcs s ! j)"
  using assms by (auto simp add: mutex_inv_def)

lemma mutex_locked:
  assumes "mutex_inv s" and "i < length (pcs s)" and "critical (pcs s ! i)"
  shows "locked s"
  using assms by (auto simp add: mutex_inv_def)

lemma repo_inv_critical_step:
  assumes m: "mutex_inv s" and i: "i < length (pcs s)" and ci: "critical (pcs s ! i)"
    and b: "git_inits p w' = g0 \<or> (git_inits p w' = Suc g0 \<and> nodes w' p = Some Dir)"
    and c: "c = AtMkdir \<longrightarrow> nodes w' p = None"
    and d: "c = AtGitInit \<longrightarrow> git_inits p w' = g0 \<and> nodes w' p = Some Dir"
  shows "repo_inv p g0 (s\<lparr>world_of := w', pcs := (pcs s)[i := c]\<rparr>)"
proof -
  have others: "\<And>j. j < length (pcs s) \<Longrightarrow> j \<noteq> i \<Longrightarrow> pcs s ! j \<noteq> AtMkdir \<and> pcs s ! j \<noteq> AtGitInit"
  proof -
    fix j assume "j < length (pcs s)" and "j \<noteq> i"
    with mutex_others [OF m i ci] have "\<not> critical (pcs s ! j)" by blast
    then show "pcs s ! j \<noteq> AtMkdir \<and> pcs s ! j \<noteq> AtGitInit" by auto
  qed
  show ?thesis
    unfolding repo_inv_def using b c d i others
    by (auto simp add: nth_list_update)
qed

lemma repo_inv_step:
  assumes m: "mutex_inv s" and r: "repo_inv p g0 s"
  shows "repo_inv p g0 (thread_step p i s)"
proof (cases "length (pcs s) \<le> i")
  case True
  with r show ?thesis by (simp add: step_outside)
next
  case False
  then have i: "i < length (pcs s)" by simp
  from r have b: "git_inits p (world_of s) = g0 \<or>
        (git_inits p (world_of s) = Suc g0 \<and> nodes (world_of s) p = Some Dir)"
    by (simp add: repo_inv_def)
  show ?thesis
  proof (cases "pcs s ! i")
    case Idle
    show ?thesis
    proof (cases "locked s")
      case True
      with Idle i r show ?thesis by (simp add: step_Idle)
    next
      case False
      with Idle i have eq: "thread_step p i s = s\<lparr>locked := True, pcs := (pcs s)[i := AtStat]\<rparr>"
        by (simp add: step_Idle)
      show ?thesis unfolding eq repo_inv_def using r i
        by (auto simp add: repo_inv_def nth_list_update)
    qed
  next
    case AtStat
    from step_AtStat [OF i AtStat, of p] obtain c
      where eq: "thread_step p i s = s\<lparr>pcs := (pcs s)[i := c]\<rparr>"
        and c: "(c = AtMkdir \<and> Stat (world_of s) p = NotExist) \<or> (\<exists>r. c = Unlocking r)"
      by auto
    from c have c1: "c = AtMkdir \<longrightarrow> nodes (world_of s) p = None"
      by (auto simp add: Stat_NotExist)
    from c have c2: "c = AtGitInit \<longrightarrow> git_inits p (world_of s) = g0 \<and> nodes (world_of s) p = Some Dir"
      by auto
    from repo_inv_critical_step [OF m i _ b c1 c2] AtStat show ?thesis
      unfolding eq by simp
  next
    case AtMkdir
    from step_AtMkdir [OF i AtMkdir, of p] obtain c res w1
      where eq: "thread_step p i s = s\<lparr>world_of := w1, pcs := (pcs s)[i := c]\<rparr>"
        and mk: "MkdirAll p (world_of s) = (res, w1)"
        and c: "(res = None \<and> c = AtGitInit) \<or> (\<exists>e. res = Some e \<and> c = Unlocking (Inl e))"
      by auto
    from r i AtMkdir have n: "nodes (world_of s) p = None" by (simp add: repo_inv_def)
    with b have g: "git_inits p (world_of s) = g0" by auto
    from mk have g1: "git_inits p w1 = g0" using g by (simp add: git_inits_MkdirAll)
    then have b1: "git_inits p w1 = g0 \<or> (git_inits p w1 = Suc g0 \<and> nodes w1 p = Some Dir)"
      by simp
    from c have c1: "c = AtMkdir \<longrightarrow> nodes w1 p = None" by auto
    from c mk g1 have c2: "c = AtGitInit \<longrightarrow> git_inits p w1 = g0 \<and> nodes w1 p = Some Dir"
      by (auto simp add: MkdirAll_ok)
    from repo_inv_critical_step [OF m i _ b1 c1 c2] AtMkdir show ?thesis
      unfolding eq by simp
  next
    case AtGitInit
    from step_AtGitInit [OF i AtGitInit, of p] obtain res w2 rr
      where eq: "thread_step p i s = s\<lparr>world_of := w2, pcs := (pcs s)[i := Unlocking rr]\<rparr>"
        and gi: "GitInit p (world_of s) = (res, w2)"
      by auto
    from r i AtGitInit have g: "git_inits p (world_of s) = g0" and n: "nodes (world_of s) p = Some Dir"
      by (simp_all add: repo_inv_def)
    from gi g n have b2: "git_inits p w2 = g0 \<or> (git_inits p w2 = Suc g0 \<and> nodes w2 p = Some Dir)"
      by (simp add: git_inits_GitInit GitInit_any)
    from repo_inv_critical_step [OF m i _ b2, of "Unlocking rr"] AtGitInit show ?thesis
      unfolding eq by simp
  next
    case (Unlocking rr)
    from Unlocking i have eq: "thread_step p i s = s\<lparr>locked := False, pcs := (pcs s)[i := Done rr]\<rparr>"
      by (simp add: step_Unlocking)
    show ?thesis unfolding eq using r i
      by (auto simp add: repo_inv_def nth_list_update)
  next
    case (Done rr)
    with i r show ?thesis by (simp add: step_Done)
  qed
qed

lemma phase_inv_step:
  assumes m: "mutex_inv s" and r: "repo_inv p (git_inits p w0) s" and ph: "phase_inv p w0 s"
    and st: "Stat w0 p = NotExist" and mk0: "fst (MkdirAll p w0) = None"
  shows "phase_inv p w0 (thread_step p i s)"
proof (cases "length (pcs s) \<le> i")
  case True
  with ph show ?thesis by (simp add: step_outside)
next
  case False
  then have i: "i < length (pcs s)" by simp
  from ph consider
      (before) "world_of s = w0"
        and "\<forall>j<length (pcs s). pcs s ! j = Idle \<or> pcs s ! j = AtStat \<or> pcs s ! j = AtMkdir"
    | (during) j where "git_inits p (world_of s) = git_inits p w0"
        and "j < length (pcs s)" and "pcs s ! j = AtGitInit"
    | (after) "git_inits p (world_of s) = Suc (git_inits p w0)"
    unfolding phase_inv_def by blast
  then show ?thesis
  proof cases
    case before
    from before(2) i
    have "pcs s ! i = Idle \<or> pcs s ! i = AtStat \<or> pcs s ! i = AtMkdir" by blast
    then show ?thesis
    proof (elim disjE)
      assume c: "pcs s ! i = Idle"
      show ?thesis
      proof (cases "locked s")
        case True
        with c i ph show ?thesis by (simp add: step_Idle)
      next
        case False
        with c i have eq: "thread_step p i s = s\<lparr>locked := True, pcs := (pcs s)[i := AtStat]\<rparr>"
          by (simp add: step_Idle)
        show ?thesis unfolding eq phase_inv_def using before i
          by (auto simp add: nth_list_update)
      qed
    next
      assume c: "pcs s ! i = AtStat"
      from step_AtStat [OF i c, of p] st before(1)
      have eq: "thread_step p i s = s\<lparr>pcs := (pcs s)[i := AtMkdir]\<rparr>"
        by auto
      show ?thesis unfolding eq phase_inv_def using before i
        by (auto simp add: nth_list_update)
    next
      assume c: "pcs s ! i = AtMkdir"
      from step_AtMkdir [OF i c, of p] mk0 before(1) obtain w1
        where eq: "thread_step p i s = s\<lparr>world_of := w1, pcs := (pcs s)[i := AtGitInit]\<rparr>"
          and mk: "MkdirAll p w0 = (None, w1)"
        by auto
      from mk have "git_inits p w1 = git_inits p w0" by (rule git_inits_MkdirAll)
      then show ?thesis unfolding eq phase_inv_def using i
        by (auto simp add: nth_list_update)
    qed
  next
    case (during j)
    have cj: "critical (pcs s ! j)" using during(3) by simp
    show ?thesis
    proof (cases "i = j")
      case True
      with during have c: "pcs s ! i = AtGitInit" by simp
      from step_AtGitInit [OF i c, of p] obtain res w2 rr
        where eq: "thread_step p i s = s\<lparr>world_of := w2, pcs := (pcs s)[i := Unlocking rr]\<rparr>"
          and gi: "GitInit p (world_of s) = (res, w2)"
        by auto
      from gi during(1) have "git_inits p w2 = Suc (git_inits p w0)"
        by (simp add: git_inits_GitInit)
      then show ?thesis unfolding eq phase_inv_def by simp
    next
      case False
      with mutex_others [OF m during(2) cj i] have nc: "\<not> critical (pcs s ! i)" by simp
      from mutex_locked [OF m during(2) cj] have l: "locked s" .
      from nc have "pcs s ! i = Idle \<or> (\<exists>rr. pcs s ! i = Done rr)"
        by (cases "pcs s ! i") simp_all
      with l i have "thread_step p i s = s" by (auto simp add: step_Idle step_Done)
      with ph show ?thesis by simp
    qed
  next
    case after
    have "git_inits p (world_of (thread_step p i s)) = git_inits p (world_of s)"
    proof (cases "pcs s ! i")
      case Idle
      with i show ?thesis by (simp add: step_Idle)
    next
      case AtStat
      from step_AtStat [OF i AtStat, of p] show ?thesis by auto
    next
      case AtMkdir
      from step_AtMkdir [OF i AtMkdir, of p] show ?thesis
        by (auto simp add: git_inits_MkdirAll)
    next
      case AtGitInit
      with r i have "git_inits p (world_of s) = git_inits p w0" by (simp add: repo_inv_def)
      with after show ?thesis by simp
    next
      case (Unlocking rr)
      with i show ?thesis by (simp add: step_Unlocking)
    next
      case (Done rr)
      with i show ?thesis by (simp add: step_Done)
    qed
    with after show ?thesis unfolding phase_inv_def by simp
  qed
qed

lemma start_invs:
  "mutex_inv (start n w)" "repo_inv p (git_inits p w) (start n w)" "phase_inv p w (start n w)"
  by (simp_all add: start_def mutex_inv_def repo_inv_def phase_inv_def)

lemma fold_invs:
  assumes "mutex_inv s" and "repo_inv p g0 s"
  shows "mutex_inv (fold (thread_step p) sched s) \<and> repo_inv p g0 (fold (thread_step p) sched s)"
  using assms
proof (induction sched arbitrary: s)
  case Nil
  then show ?case by simp
next
  case (Cons i sched)
  from Cons.prems have "mutex_inv (thread_step p i s)" and "repo_inv p g0 (thread_step p i s)"
    by (simp_all add: mutex_inv_step repo_inv_step)
  with Cons.IH show ?case by simp
qed

lemma fold_phase:
  assumes "mutex_inv s" and "repo_inv p (git_inits p w0) s" and "phase_inv p w0 s"
    and "Stat w0 p = NotExist" and "fst (MkdirAll p w0) = None"
  shows "phase_inv p w0 (fold (thread_step p) sched s)"
  using assms(1-3)
proof (induction sched arbitrary: s)
  case Nil
  then show ?case by simp
next
  case (Cons i sched)
  from Cons.prems assms(4,5)
  have "mutex_inv (thread_step p i s)" and "repo_inv p (git_inits p w0) (thread_step p i s)"
    and "phase_inv p w0 (thread_step p i s)"
    by (simp_all add: mutex_inv_step repo_inv_step phase_inv_step)
  with Cons.IH show ?case by simp
qed

lemma length_pcs_step: "length (pcs (thread_step p i s)) = length (pcs s)"
proof (cases "length (pcs s) \<le> i")
  case True
  then show ?thesis by (simp add: step_outside)
next
  case False
  then have i: "i < length (pcs s)" by simp
  show ?thesis
  proof (cases "pcs s ! i")
    case Idle
    with i show ?thesis by (simp add: step_Idle)
  next
    case AtStat
    from step_AtStat [OF i AtStat, of p] show ?thesis by auto
  next
    case AtMkdir
    from step_AtMkdir [OF i AtMkdir, of p] show ?thesis by auto
  next
    case AtGitInit
    from step_AtGitInit [OF i AtGitInit, of p] show ?thesis by auto
  next
    case (Unlocking rr)
    with i show ?thesis by (simp add: step_Unlocking)
  next
    case (Done rr)
    with i show ?thesis by (simp add: step_Done)
  qed
qed

lemma length_pcs_run: "length (pcs (run p sched s)) = length (pcs s)"
  unfolding run_def by (induction sched arbitrary: s) (simp_all add: length_pcs_step)

text \<open>A thread that runs alone goes through \<open>createRepo\<close>: five steps take it from the call
  to the return, with the result and the world of the sequential function.\<close>

lemma run_alone:
  "run p [0, 0, 0, 0, 0] (start 1 w) =
     \<lparr>world_of = snd (createRepo p w), locked = False, pcs = [Done (fst (createRepo p w))]\<rparr>"
proof (cases "Stat w p")
  case NotExist
  obtain r1 w1 where m: "MkdirAll p w = (r1, w1)" by (cases "MkdirAll p w")
  obtain r2 w2 where g: "GitInit p w1 = (r2, w2)" by (cases "GitInit p w1")
  from NotExist m g show ?thesis
    by (cases r1; cases r2) (simp_all add: run_def start_def thread_step_def createRepo_def)
qed (simp_all add: run_def start_def thread_step_def createRepo_def)

text \<open>So does a thread that is the only one to run among others that wait or have returned;
  and in the serial schedule every thread returns.\<close>

lemma run_append: "run p (xs @ ys) s = run p ys (run p xs s)"
  by (simp add: run_def)

lemma run_thread:
  assumes i: "i < length (pcs s)" and c: "pcs s ! i = Idle" and l: "\<not> locked s"
  shows "run p [i, i, i, i, i] s =
     s\<lparr>world_of := snd (createRepo p (world_of s)), locked := False,
       pcs := (pcs s)[i := Done (fst (createRepo p (world_of s)))]\<rparr>"
proof (cases "Stat (world_of s) p")
  case NotExist
  obtain r1 w1 where m: "MkdirAll p (world_of s) = (r1, w1)" by (cases "MkdirAll p (world_of s)")
  obtain r2 w2 where g: "GitInit p w1 = (r2, w2)" by (cases "GitInit p w1")
  from NotExist m g i c l show ?thesis
    by (cases r1; cases r2) (simp_all add: run_def thread_step_def createRepo_def)
qed (use i c l in \<open>simp_all add: run_def thread_step_def createRepo_def\<close>)

lemma serial_run:
  "k \<le> n \<Longrightarrow> \<exists>w' rs. run p (serial k) (start n w) =
       \<lparr>world_of = w', locked = False, pcs = rs @ replicate (n - k) Idle\<rparr> \<and>
       length rs = k \<and> (\<forall>c \<in> set rs. returned c)"
proof (induction k)
  case 0
  show ?case by (simp add: serial_def run_def start_def)
next
  case (Suc k)
  then obtain w' rs where s: "run p (serial k) (start n w) =
       \<lparr>world_of = w', locked = False, pcs = rs @ replicate (n - k) Idle\<rparr>"
    and len: "length rs = k" and ret: "\<forall>c \<in> set rs. returned c"
    by auto
  let ?s = "\<lparr>world_of = w', locked = False, pcs = rs @ replicate (n - k) Idle\<rparr>"
  from Suc.prems have nk: "n - k = Suc (n - Suc k)" by simp
  have i: "k < length (pcs ?s)" using Suc.prems len by simp
  have c: "pcs ?s ! k = Idle" using len nk by (simp add: nth_append)
  have l: "\<not> locked ?s" by simp
  have "serial (Suc k) = serial k @ [k, k, k, k, k]" by (simp add: serial_def)
  then have "run p (serial (Suc k)) (start n w) = run p [k, k, k, k, k] ?s"
    by (simp add: run_append s)
  also have "\<dots> = \<lparr>world_of = snd (createRepo p w'), locked = False,
       pcs = (rs @ [Done (fst (createRepo p w'))]) @ replicate (n - Suc k) Idle\<rparr>"
    unfolding run_thread [OF i c l] using len nk by (simp add: list_update_append)
  finally show ?case using len ret by (auto simp add: returned_def)
qed

lemma serial_returns:
  "length (pcs (run p (serial n) (start n w))) = n \<and>
   (\<forall>c \<in> set (pcs (run p (serial n) (start n w))). returned c)"
  using serial_run [of n n p w] by auto

text \<open>The world of an interleaved run is the world of the finished calls made one after
  the other.\<close>

lemma finished_simps [simp]:
  "\<not> finished Idle" "\<not> finished AtStat" "\<not> finished AtMkdir" "\<not> finished AtGitInit"
  "finished (Unlocking r)" "finished (Done r)"
  by (simp_all add: finished_def)

lemma filter_update_count:
  "i < length xs \<Longrightarrow>
   length (filter P (xs[i := y])) + (if P (xs ! i) then 1 else 0) =
   length (filter P xs) + (if P y then 1 else 0)"
proof (induction xs arbitrary: i)
  case Nil
  then show ?case by simp
next
  case (Cons x xs)
  show ?case
  proof (cases i)
    case 0
    then show ?thesis by simp
  next
    case (Suc k)
    with Cons.prems have "k < length xs" by simp
    from Cons.IH [OF this] Suc show ?thesis by simp
  qed
qed

lemma calls_done_same:
  assumes "i < length (pcs s)" and "finished c = finished (pcs s ! i)"
  shows "calls_done (s\<lparr>world_of := v, locked := l, pcs := (pcs s)[i := c]\<rparr>) = calls_done s"
  using filter_update_count [OF assms(1), of finished c] assms(2)
  by (simp add: calls_done_def split: if_splits)

lemma calls_done_Suc:
  assumes "i < length (pcs s)" and "finished c" and "\<not> finished (pcs s ! i)"
  shows "calls_done (s\<lparr>world_of := v, locked := l, pcs := (pcs s)[i := c]\<rparr>) = Suc (calls_done s)"
  using filter_update_count [OF assms(1), of finished c] assms(2,3)
  by (simp add: calls_done_def)

lemma after_calls_Suc: "after_calls p (Suc k) w = snd (createRepo p (after_calls p k w))"
  by (simp add: after_calls_def)

lemma createRepo_not_missing: "Stat v p \<noteq> NotExist \<Longrightarrow> snd (createRepo p v) = v"
  by (cases "Stat v p") (simp_all add: createRepo_def)

lemma createRepo_mkdir_fails:
  "Stat v p = NotExist \<Longrightarrow> MkdirAll p v = (Some e, w1) \<Longrightarrow> snd (createRepo p v) = w1"
  by (simp add: createRepo_def)

lemma createRepo_git_init:
  "Stat v p = NotExist \<Longrightarrow> MkdirAll p v = (None, w1) \<Longrightarrow> GitInit p w1 = (r, w2)
   \<Longrightarrow> snd (createRepo p v) = w2"
  by (cases r) (simp_all add: createRepo_def)

lemma serial_inv_critical_step:
  assumes m: "mutex_inv s" and i: "i < length (pcs s)" and ci: "critical (pcs s ! i)"
    and c1: "c = AtMkdir \<longrightarrow> Stat (after_calls p k w) p = NotExist"
    and c2: "c = AtGitInit \<longrightarrow> Stat (after_calls p k w) p = NotExist \<and>
               MkdirAll p (after_calls p k w) = (None, v)"
    and c3: "c \<noteq> AtGitInit \<longrightarrow> v = after_calls p k w"
    and k: "calls_done (s\<lparr>world_of := v, pcs := (pcs s)[i := c]\<rparr>) = k"
  shows "serial_inv p w (s\<lparr>world_of := v, pcs := (pcs s)[i := c]\<rparr>)"
proof -
  have others: "\<And>j. j < length (pcs s) \<Longrightarrow> j \<noteq> i \<Longrightarrow> pcs s ! j \<noteq> AtMkdir \<and> pcs s ! j \<noteq> AtGitInit"
  proof -
    fix j assume "j < length (pcs s)" and "j \<noteq> i"
    with mutex_others [OF m i ci] have "\<not> critical (pcs s ! j)" by blast
    then show "pcs s ! j \<noteq> AtMkdir \<and> pcs s ! j \<noteq> AtGitInit" by auto
  qed
  show ?thesis
    unfolding serial_inv_def k using c1 c2 c3 i others
    by (auto simp add: nth_list_update)
qed

lemma no_git_init_elsewhere:
  assumes m: "mutex_inv s" and i: "i < length (pcs s)" and ci: "critical (pcs s ! i)"
    and ni: "pcs s ! i \<noteq> AtGitInit"
  shows "\<forall>j<length (pcs s). pcs s ! j \<noteq> AtGitInit"
proof (intro allI impI)
  fix j assume j: "j < length (pcs s)"
  show "pcs s ! j \<noteq> AtGitInit"
  proof (cases "j = i")
    case True
    with ni show ?thesis by simp
  next
    case False
    with mutex_others [OF m i ci j] have "\<not> critical (pcs s ! j)" by simp
    then show ?thesis by auto
  qed
qed

lemma serial_inv_step:
  assumes m: "mutex_inv s" and r: "serial_inv p w s"
  shows "serial_inv p w (thread_step p i s)"
proof (cases "length (pcs s) \<le> i")
  case True
  with r show ?thesis by (simp add: step_outside)
next
  case False
  then have i: "i < length (pcs s)" by simp
  let ?k = "calls_done s"
  let ?wk = "after_calls p ?k w"
  show ?thesis
  proof (cases "pcs s ! i")
    case Idle
    show ?thesis
    proof (cases "locked s")
      case True
      with Idle i r show ?thesis by (simp add: step_Idle)
    next
      case False
      with Idle i have eq: "thread_step p i s = s\<lparr>locked := True, pcs := (pcs s)[i := AtStat]\<rparr>"
        by (simp add: step_Idle)
      have k: "calls_done (s\<lparr>locked := True, pcs := (pcs s)[i := AtStat]\<rparr>) = ?k"
        using calls_done_same [OF i, where c = AtStat and v = "world_of s" and l = True] Idle by simp
      from False m have none: "\<And>j. j < length (pcs s) \<Longrightarrow> \<not> critical (pcs s ! j)"
        by (simp add: mutex_inv_def)
      have quiet: "\<And>j. j < length (pcs s) \<Longrightarrow> pcs s ! j \<noteq> AtMkdir \<and> pcs s ! j \<noteq> AtGitInit"
      proof -
        fix j assume "j < length (pcs s)"
        from none [OF this] show "pcs s ! j \<noteq> AtMkdir \<and> pcs s ! j \<noteq> AtGitInit" by auto
      qed
      then have "\<forall>j<length (pcs s). pcs s ! j \<noteq> AtGitInit" by blast
      with r have w: "world_of s = ?wk" by (simp add: serial_inv_def)
      show ?thesis unfolding eq serial_inv_def k using w i quiet
        by (auto simp add: nth_list_update)
    qed
  next
    case AtStat
    then have ci: "critical (pcs s ! i)" by simp
    from no_git_init_elsewhere [OF m i ci] AtStat r have w: "world_of s = ?wk"
      by (simp add: serial_inv_def)
    from step_AtStat [OF i AtStat, of p] obtain c
      where eq: "thread_step p i s = s\<lparr>world_of := world_of s, pcs := (pcs s)[i := c]\<rparr>"
        and c: "(c = AtMkdir \<and> Stat (world_of s) p = NotExist) \<or>
                (\<exists>rr. c = Unlocking rr \<and> Stat (world_of s) p \<noteq> NotExist)"
      by auto
    from c show ?thesis
    proof
      assume a: "c = AtMkdir \<and> Stat (world_of s) p = NotExist"
      have k: "calls_done (s\<lparr>world_of := world_of s, pcs := (pcs s)[i := c]\<rparr>) = ?k"
        using calls_done_same [OF i, where c = c and v = "world_of s" and l = "locked s"] AtStat a
        by simp
      show ?thesis unfolding eq
      proof (rule serial_inv_critical_step [OF m i ci _ _ _ k])
        show "c = AtMkdir \<longrightarrow> Stat ?wk p = NotExist" using a w by simp
        show "c = AtGitInit \<longrightarrow> Stat ?wk p = NotExist \<and> MkdirAll p ?wk = (None, world_of s)"
          using a by simp
        show "c \<noteq> AtGitInit \<longrightarrow> world_of s = ?wk" using w by simp
      qed
    next
      assume "\<exists>rr. c = Unlocking rr \<and> Stat (world_of s) p \<noteq> NotExist"
      then obtain rr where a: "c = Unlocking rr" and st: "Stat (world_of s) p \<noteq> NotExist" by blast
      have k: "calls_done (s\<lparr>world_of := world_of s, pcs := (pcs s)[i := c]\<rparr>) = Suc ?k"
        using calls_done_Suc [OF i, where c = c and v = "world_of s" and l = "locked s"] AtStat a
        by simp
      have w': "world_of s = after_calls p (Suc ?k) w"
        using createRepo_not_missing [OF st] w by (simp add: after_calls_Suc)
      show ?thesis unfolding eq
      proof (rule serial_inv_critical_step [OF m i ci _ _ _ k])
        show "c = AtMkdir \<longrightarrow> Stat (after_calls p (Suc ?k) w) p = NotExist" using a by simp
        show "c = AtGitInit \<longrightarrow> Stat (after_calls p (Suc ?k) w) p = NotExist \<and>
            MkdirAll p (after_calls p (Suc ?k) w) = (None, world_of s)"
          using a by simp
        show "c \<noteq> AtGitInit \<longrightarrow> world_of s = after_calls p (Suc ?k) w" using w' by simp
      qed
    qed
  next
    case AtMkdir
    then have ci: "critical (pcs s ! i)" by simp
    from no_git_init_elsewhere [OF m i ci] AtMkdir r have w: "world_of s = ?wk"
      by (simp add: serial_inv_def)
    from r i AtMkdir have st: "Stat ?wk p = NotExist" by (simp add: serial_inv_def)
    from step_AtMkdir [OF i AtMkdir, of p] obtain c res w1
      where eq: "thread_step p i s = s\<lparr>world_of := w1, pcs := (pcs s)[i := c]\<rparr>"
        and mk0: "MkdirAll p (world_of s) = (res, w1)"
        and c: "(res = None \<and> c = AtGitInit) \<or> (\<exists>e. res = Some e \<and> c = Unlocking (Inl e))"
      by auto
    from mk0 have mk: "MkdirAll p ?wk = (res, w1)" unfolding w .
    from c show ?thesis
    proof
      assume a: "res = None \<and> c = AtGitInit"
      have k: "calls_done (s\<lparr>world_of := w1, pcs := (pcs s)[i := c]\<rparr>) = ?k"
        using calls_done_same [OF i, where c = c and v = w1 and l = "locked s"] AtMkdir a by simp
      show ?thesis unfolding eq
      proof (rule serial_inv_critical_step [OF m i ci _ _ _ k])
        show "c = AtMkdir \<longrightarrow> Stat ?wk p = NotExist" using st by simp
        show "c = AtGitInit \<longrightarrow> Stat ?wk p = NotExist \<and> MkdirAll p ?wk = (None, w1)"
          using st mk a by simp
        show "c \<noteq> AtGitInit \<longrightarrow> w1 = ?wk" using a by simp
      qed
    next
      assume "\<exists>e. res = Some e \<and> c = Unlocking (Inl e)"
      then obtain e where a: "res = Some e" "c = Unlocking (Inl e)" by blast
      have k: "calls_done (s\<lparr>world_of := w1, pcs := (pcs s)[i := c]\<rparr>) = Suc ?k"
        using calls_done_Suc [OF i, where c = c and v = w1 and l = "locked s"] AtMkdir a by simp
      from mk a have "MkdirAll p ?wk = (Some e, w1)" by simp
      from createRepo_mkdir_fails [OF st this] have w': "w1 = after_calls p (Suc ?k) w"
        by (simp add: after_calls_Suc)
      show ?thesis unfolding eq
      proof (rule serial_inv_critical_step [OF m i ci _ _ _ k])
        show "c = AtMkdir \<longrightarrow> Stat (after_calls p (Suc ?k) w) p = NotExist" using a by simp
        show "c = AtGitInit \<longrightarrow> Stat (after_calls p (Suc ?k) w) p = NotExist \<and>
            MkdirAll p (after_calls p (Suc ?k) w) = (None, w1)"
          using a by simp
        show "c \<noteq> AtGitInit \<longrightarrow> w1 = after_calls p (Suc ?k) w" using w' by simp
      qed
    qed
  next
    case AtGitInit
    then have ci: "critical (pcs s ! i)" by simp
    from r i AtGitInit have st: "Stat ?wk p = NotExist"
      and mk: "MkdirAll p ?wk = (None, world_of s)"
      by (simp_all add: serial_inv_def)
    from step_AtGitInit [OF i AtGitInit, of p] obtain res w2 rr
      where eq: "thread_step p i s = s\<lparr>world_of := w2, pcs := (pcs s)[i := Unlocking rr]\<rparr>"
        and gi: "GitInit p (world_of s) = (res, w2)"
      by auto
    have k: "calls_done (s\<lparr>world_of := w2, pcs := (pcs s)[i := Unlocking rr]\<rparr>) = Suc ?k"
      using calls_done_Suc [OF i, where c = "Unlocking rr" and v = w2 and l = "locked s"] AtGitInit
      by simp
    from createRepo_git_init [OF st mk gi] have w': "w2 = after_calls p (Suc ?k) w"
      by (simp add: after_calls_Suc)
    show ?thesis unfolding eq
    proof (rule serial_inv_critical_step [OF m i ci _ _ _ k])
      show "Unlocking rr = AtMkdir \<longrightarrow> Stat (after_calls p (Suc ?k) w) p = NotExist" by simp
      show "Unlocking rr = AtGitInit \<longrightarrow> Stat (after_calls p (Suc ?k) w) p = NotExist \<and>
          MkdirAll p (after_calls p (Suc ?k) w) = (None, w2)"
        by simp
      show "Unlocking rr \<noteq> AtGitInit \<longrightarrow> w2 = after_calls p (Suc ?k) w" using w' by simp
    qed
  next
    case (Unlocking rr)
    then have ci: "critical (pcs s ! i)" by simp
    from no_git_init_elsewhere [OF m i ci] Unlocking r have w: "world_of s = ?wk"
      by (simp add: serial_inv_def)
    from Unlocking i have eq: "thread_step p i s = s\<lparr>locked := False, pcs := (pcs s)[i := Done rr]\<rparr>"
      by (simp add: step_Unlocking)
    have k: "calls_done (s\<lparr>locked := False, pcs := (pcs s)[i := Done rr]\<rparr>) = ?k"
      using calls_done_same [OF i, where c = "Done rr" and v = "world_of s" and l = False] Unlocking by simp
    have others: "\<And>j. j < length (pcs s) \<Longrightarrow> j \<noteq> i \<Longrightarrow> pcs s ! j \<noteq> AtMkdir \<and> pcs s ! j \<noteq> AtGitInit"
    proof -
      fix j assume "j < length (pcs s)" and "j \<noteq> i"
      with mutex_others [OF m i ci] have "\<not> critical (pcs s ! j)" by blast
      then show "pcs s ! j \<noteq> AtMkdir \<and> pcs s ! j \<noteq> AtGitInit" by auto
    qed
    show ?thesis unfolding eq serial_inv_def k using w i others
      by (auto simp add: nth_list_update)
  next
    case (Done rr)
    with i r show ?thesis by (simp add: step_Done)
  qed
qed

lemma start_serial_inv: "serial_inv p w (start n w)"
  by (simp add: serial_inv_def start_def calls_done_def after_calls_def)

lemma fold_serial:
  assumes "mutex_inv s" and "serial_inv p w s"
  shows "serial_inv p w (fold (thread_step p) sched s)"
  using assms
proof (induction sched arbitrary: s)
  case Nil
  then show ?case by simp
next
  case (Cons i sched)
  from Cons.prems have "mutex_inv (thread_step p i s)" and "serial_inv p w (thread_step p i s)"
    by (simp_all add: mutex_inv_step serial_inv_step)
  with Cons.IH show ?case by simp
qed

lemma all_returned_calls_done:
  assumes "\<forall>c \<in> set (pcs s). returned c"
  shows "calls_done s = length (pcs s)" and "\<forall>i<length (pcs s). pcs s ! i \<noteq> AtGitInit"
proof -
  have "\<forall>c \<in> set (pcs s). finished c"
  proof
    fix c assume "c \<in> set (pcs s)"
    with assms have "returned c" by blast
    then show "finished c" by (cases c) (simp_all add: returned_def)
  qed
  then have "filter finished (pcs s) = pcs s" by (simp add: filter_id_conv)
  then show "calls_done s = length (pcs s)" by (simp add: calls_done_def)
  show "\<forall>i<length (pcs s). pcs s ! i \<noteq> AtGitInit"
  proof (intro allI impI)
    fix i assume "i < length (pcs s)"
    with assms have "returned (pcs s ! i)" by simp
    then show "pcs s ! i \<noteq> AtGitInit" by (auto simp add: returned_def)
  qed
qed

lemma run_serializes:
  assumes "\<forall>c \<in> set (pcs (run p sched (start n w))). returned c"
  shows "world_of (run p sched (start n w)) = after_calls p n w"
proof -
  let ?s = "run p sched (start n w)"
  have len: "length (pcs ?s) = n" by (simp add: length_pcs_run start_def)
  from fold_serial [OF start_invs(1) start_serial_inv] have inv: "serial_inv p w ?s"
    unfolding run_def .
  from all_returned_calls_done [OF assms] len inv show ?thesis
    by (simp add: serial_inv_def)
qed

text \<open>When \<^verbatim>\<open>os.Stat\<close> does not report the path as missing, no thread changes the
  world.\<close>

lemma untouched_step:
  assumes st: "Stat w p \<noteq> NotExist" and w: "world_of s = w"
    and q: "\<forall>j<length (pcs s). pcs s ! j \<noteq> AtMkdir \<and> pcs s ! j \<noteq> AtGitInit"
  shows "world_of (thread_step p i s) = w \<and>
    (\<forall>j<length (pcs (thread_step p i s)).
       pcs (thread_step p i s) ! j \<noteq> AtMkdir \<and> pcs (thread_step p i s) ! j \<noteq> AtGitInit)"
proof (cases "length (pcs s) \<le> i")
  case True
  with w q show ?thesis by (simp add: step_outside)
next
  case False
  then have i: "i < length (pcs s)" by simp
  show ?thesis
  proof (cases "pcs s ! i")
    case Idle
    with i w q show ?thesis by (auto simp add: step_Idle nth_list_update)
  next
    case AtStat
    from step_AtStat [OF i AtStat, of p] st w obtain rr
      where eq: "thread_step p i s = s\<lparr>pcs := (pcs s)[i := Unlocking rr]\<rparr>"
      by auto
    show ?thesis unfolding eq using i w q by (auto simp add: nth_list_update)
  next
    case AtMkdir
    with q i show ?thesis by blast
  next
    case AtGitInit
    with q i show ?thesis by blast
  next
    case (Unlocking rr)
    with i w q show ?thesis by (auto simp add: step_Unlocking nth_list_update)
  next
    case (Done rr)
    with i w q show ?thesis by (simp add: step_Done)
  qed
qed

lemma fold_untouched:
  assumes "Stat w p \<noteq> NotExist" and "world_of s = w"
    and "\<forall>j<length (pcs s). pcs s ! j \<noteq> AtMkdir \<and> pcs s ! j \<noteq> AtGitInit"
  shows "world_of (fold (thread_step p) sched s) = w"
  using assms(2,3)
proof (induction sched arbitrary: s)
  case Nil
  then show ?case by simp
next
  case (Cons i sched)
  from untouched_step [OF assms(1) Cons.prems, of i] Cons.IH [of "thread_step p i s"]
  show ?case by simp
qed

lemma run_untouched: "Stat w p \<noteq> NotExist \<Longrightarrow> world_of (run p sched (start n w)) = w"
  unfolding run_def by (rule fold_untouched) (simp_all add: start_def)

text \<open>
  Claim C10, as amended. Let any number of threads call \<open>createRepo\<close> with the same path.
  In every interleaving, and at every moment of it, at most one thread is critical, that
  is between its \<^verbatim>\<open>createLock.Lock()\<close> and its \<^verbatim>\<open>createLock.Unlock()\<close>: at \<^verbatim>\<open>os.Stat\<close>,
  at \<^verbatim>\<open>os.MkdirAll\<close>, at \<^verbatim>\<open>git init\<close> or at the deferred unlock; the mutex is held
  exactly when a thread is critical, so the lock covers the whole sequence of stat, mkdir
  and git init; and \<^verbatim>\<open>git init --bare\<close> has been executed at most once in the path.
  When the path names nothing beforehand and \<^verbatim>\<open>os.MkdirAll\<close> succeeds on it, and at
  least one thread calls, then once all the threads have returned \<^verbatim>\<open>git init --bare\<close> has
  been executed exactly once. When \<^verbatim>\<open>os.Stat\<close> does not report the path as missing
  beforehand, as for a repository that exists, the world is never changed: no thread
  executes \<^verbatim>\<open>os.MkdirAll\<close> or \<^verbatim>\<open>git init --bare\<close>. Once all the threads have returned,
  the world is the one that as many calls of \<open>createRepo\<close>, made one after the other,
  leave.
\<close>

theorem createRepo_concurrent:
  "(\<forall>i<n. \<forall>j<n. critical (pcs (run p sched (start n w)) ! i) \<and>
                  critical (pcs (run p sched (start n w)) ! j) \<longrightarrow> i = j) \<and>
   locked (run p sched (start n w)) = (\<exists>i<n. critical (pcs (run p sched (start n w)) ! i)) \<and>
   git_inits p (world_of (run p sched (start n w))) \<le> Suc (git_inits p w) \<and>
   (Stat w p = NotExist \<and> fst (MkdirAll p w) = None \<and> 0 < n \<and>
    (\<forall>c \<in> set (pcs (run p sched (start n w))). returned c)
    \<longrightarrow> git_inits p (world_of (run p sched (start n w))) = Suc (git_inits p w)) \<and>
   (Stat w p \<noteq> NotExist \<longrightarrow> world_of (run p sched (start n w)) = w) \<and>
   ((\<forall>c \<in> set (pcs (run p sched (start n w))). returned c)
    \<longrightarrow> world_of (run p sched (start n w)) = after_calls p n w)"
proof -
  let ?s = "run p sched (start n w)"
  have len: "length (pcs ?s) = n" by (simp add: length_pcs_run start_def)
  from fold_invs [OF start_invs(1,2)] have m: "mutex_inv ?s" and r: "repo_inv p (git_inits p w) ?s"
    unfolding run_def by blast+
  from m have excl: "\<forall>i<n. \<forall>j<n. critical (pcs ?s ! i) \<and> critical (pcs ?s ! j) \<longrightarrow> i = j"
    and held: "locked ?s = (\<exists>i<n. critical (pcs ?s ! i))"
    unfolding mutex_inv_def len by blast+
  from r have most: "git_inits p (world_of ?s) \<le> Suc (git_inits p w)"
    by (auto simp add: repo_inv_def)
  have once: "Stat w p = NotExist \<and> fst (MkdirAll p w) = None \<and> 0 < n \<and>
      (\<forall>c \<in> set (pcs ?s). returned c)
      \<longrightarrow> git_inits p (world_of ?s) = Suc (git_inits p w)"
  proof
    assume h: "Stat w p = NotExist \<and> fst (MkdirAll p w) = None \<and> 0 < n \<and>
      (\<forall>c \<in> set (pcs ?s). returned c)"
    then have ph: "phase_inv p w ?s"
      unfolding run_def using fold_phase [OF start_invs] by blast
    from h have fin: "\<And>j. j < length (pcs ?s) \<Longrightarrow> returned (pcs ?s ! j)" by simp
    have no0: "\<not> (\<forall>j<length (pcs ?s). pcs ?s ! j = Idle \<or> pcs ?s ! j = AtStat \<or> pcs ?s ! j = AtMkdir)"
    proof
      assume a: "\<forall>j<length (pcs ?s). pcs ?s ! j = Idle \<or> pcs ?s ! j = AtStat \<or> pcs ?s ! j = AtMkdir"
      from h len have z: "0 < length (pcs ?s)" by simp
      with a fin [OF z] show False by (auto simp add: returned_def)
    qed
    have no1: "\<not> (\<exists>j<length (pcs ?s). pcs ?s ! j = AtGitInit)"
    proof
      assume "\<exists>j<length (pcs ?s). pcs ?s ! j = AtGitInit"
      then obtain j where "j < length (pcs ?s)" and "pcs ?s ! j = AtGitInit" by blast
      with fin [of j] show False by (simp add: returned_def)
    qed
    from ph no0 no1 show "git_inits p (world_of ?s) = Suc (git_inits p w)"
      unfolding phase_inv_def by blast
  qed
  have same: "Stat w p \<noteq> NotExist \<longrightarrow> world_of ?s = w"
    by (simp add: run_untouched)
  have ser: "(\<forall>c \<in> set (pcs ?s). returned c) \<longrightarrow> world_of ?s = after_calls p n w"
    by (simp add: run_serializes)
  from excl held most once same ser show ?thesis by blast
qed

text \<open>The theorem at two threads in the empty world: thread 0 takes the mutex, thread 1
  waits for it; thread 0 creates the repository and returns true, thread 1 then finds the
  directory and returns false, and the world is that of two calls in a row. After the
  first three steps thread 0 is at \<^verbatim>\<open>os.MkdirAll\<close> and holds the mutex. On a path that is
  a directory, two threads leave the world as it is.\<close>

theorem createRepo_concurrent_witness:
  "pcs (run ''/home/git/demo.git'' [0, 1, 0, 1, 0, 0, 1, 0, 1, 1, 1] (start 2 empty_world))
     = [Done (Inr True), Done (Inr False)] \<and>
   git_inits ''/home/git/demo.git''
     (world_of (run ''/home/git/demo.git'' [0, 1, 0, 1, 0, 0, 1, 0, 1, 1, 1] (start 2 empty_world)))
     = 1 \<and>
   world_of (run ''/home/git/demo.git'' [0, 1, 0, 1, 0, 0, 1, 0, 1, 1, 1] (start 2 empty_world))
     = after_calls ''/home/git/demo.git'' 2 empty_world \<and>
   pcs (run ''/home/git/demo.git'' [0, 1, 0] (start 2 empty_world)) = [AtMkdir, Idle] \<and>
   locked (run ''/home/git/demo.git'' [0, 1, 0] (start 2 empty_world)) \<and>
   world_of (run ''/home/git/demo.git'' [0, 1, 0, 1, 1, 0]
       (start 2 (empty_world\<lparr>nodes := [''/home/git/demo.git'' \<mapsto> Dir]\<rparr>)))
     = empty_world\<lparr>nodes := [''/home/git/demo.git'' \<mapsto> Dir]\<rparr>"
proof -
  let ?p = "''/home/git/demo.git''"
  let ?sched = "[0, 1, 0, 1, 0, 0, 1, 0, 1, 1, 1] :: nat list"
  let ?s = "run ?p ?sched (start 2 empty_world)"
  let ?t = "run ?p [0, 1, 0] (start 2 empty_world)"
  let ?e = "empty_world\<lparr>nodes := [?p \<mapsto> Dir]\<rparr>"
  note T = createRepo_concurrent [of 2 ?p ?sched empty_world]
  have fin: "pcs ?s = [Done (Inr True), Done (Inr False)]"
    by (simp add: run_def start_def thread_step_def world_eval numeral_2_eq_2)
  then have ret: "\<forall>c \<in> set (pcs ?s). returned c" by (simp add: returned_def)
  have pos: "(0::nat) < 2" by simp
  from T Stat_empty_world [of ?p] MkdirAll_empty_world [of ?p] pos ret
  have "git_inits ?p (world_of ?s) = Suc (git_inits ?p empty_world)" by blast
  then have one: "git_inits ?p (world_of ?s) = 1" by (simp add: git_inits_def empty_world_simps)
  from T ret have ser: "world_of ?s = after_calls ?p 2 empty_world" by blast
  have mid: "pcs ?t = [AtMkdir, Idle]"
    by (simp add: run_def start_def thread_step_def world_eval numeral_2_eq_2)
  then have "\<exists>i<2. critical (pcs ?t ! i)" by (auto intro: exI [of _ 0])
  with createRepo_concurrent [of 2 ?p "[0, 1, 0]" empty_world] have held: "locked ?t" by blast
  have "Stat ?e ?p \<noteq> NotExist" by (simp add: Stat_def empty_world_simps)
  with createRepo_concurrent [of 2 ?p "[0, 1, 0, 1, 1, 0]" ?e]
  have same: "world_of (run ?p [0, 1, 0, 1, 1, 0] (start 2 ?e)) = ?e" by blast
  from fin one ser mid held same show ?thesis by simp
qed

text \<open>
  The claim as the spec words it fails when the repository exists before the calls, as
  it does for every push but the first: two threads call \<open>createRepo\<close> on the directory
  \<open>/home/git/demo.git\<close>, both return false, and \<^verbatim>\<open>git init --bare\<close> is executed by neither.
  It fails on a path that names nothing as well, when \<^verbatim>\<open>os.MkdirAll\<close> is refused: both
  threads return the error and \<^verbatim>\<open>git init --bare\<close> is executed by neither.
\<close>

theorem createRepo_concurrent_counterexample:
  "pcs (run ''/home/git/demo.git'' [0, 0, 0, 1, 1, 1]
          (start 2 (empty_world\<lparr>nodes := [''/home/git/demo.git'' \<mapsto> Dir]\<rparr>)))
     = [Done (Inr False), Done (Inr False)] \<and>
   git_inits ''/home/git/demo.git''
     (world_of (run ''/home/git/demo.git'' [0, 0, 0, 1, 1, 1]
          (start 2 (empty_world\<lparr>nodes := [''/home/git/demo.git'' \<mapsto> Dir]\<rparr>))))
     = 0 \<and>
   Stat (empty_world\<lparr>mkdir_err := [''/home/git/demo.git'' \<mapsto> ''permission denied'']\<rparr>)
     ''/home/git/demo.git'' = NotExist \<and>
   pcs (run ''/home/git/demo.git'' [0, 0, 0, 0, 1, 1, 1, 1]
          (start 2 (empty_world\<lparr>mkdir_err := [''/home/git/demo.git'' \<mapsto> ''permission denied'']\<rparr>)))
     = [Done (Inl ''permission denied''), Done (Inl ''permission denied'')] \<and>
   git_inits ''/home/git/demo.git''
     (world_of (run ''/home/git/demo.git'' [0, 0, 0, 0, 1, 1, 1, 1]
          (start 2 (empty_world\<lparr>mkdir_err := [''/home/git/demo.git'' \<mapsto> ''permission denied'']\<rparr>))))
     = 0"
  by (simp add: run_def start_def thread_step_def world_eval numeral_2_eq_2)

section \<open>Claims about \<^verbatim>\<open>Receive\<close>\<close>

text \<open>A string contains each of the pieces it is catenated from.\<close>

lemma Index_prefix: "prefix s t \<Longrightarrow> Index t s = Some 0"
  by (cases t) auto

lemma Index_append_Some: "\<exists>j. Index (a @ s @ b) s = Some j"
proof (induction a)
  case Nil
  have "prefix s (s @ b)" by simp
  then show ?case by (simp add: Index_prefix)
next
  case (Cons c a)
  then show ?case by auto
qed

lemma Contains_append: "Contains (a @ s @ b) s"
  using Index_append_Some [of a s b] by (auto simp add: Contains_def)

text \<open>When \<^verbatim>\<open>cmd.Start()\<close> or \<^verbatim>\<open>cmd.Wait()\<close> fails, the error returned contains what the
  subprocess has written to its standard error.\<close>

lemma run_git_shell_start_failure:
  assumes "pipe_err sp = None" and "start_err sp = Some e"
  shows "\<exists>msg. fst (run_git_shell args env sp w) = Some msg \<and> Contains msg (errbuff_at_start sp)"
proof -
  from assms have "fst (run_git_shell args env sp w) =
      Some ((''Failed to start git pre-receive hook: '' @ e @ '' ('') @ errbuff_at_start sp @ '')'')"
    by (simp add: run_git_shell_def Let_def)
  then show ?thesis using Contains_append by blast
qed

lemma run_git_shell_wait_failure:
  assumes "pipe_err sp = None" and "start_err sp = None" and "copy_err sp = None"
    and "wait_err sp = Some e"
  shows "\<exists>msg. fst (run_git_shell args env sp w) = Some msg \<and> Contains msg (errbuff_at_wait sp)"
proof -
  from assms have "fst (run_git_shell args env sp w) =
      Some (''Failed to run git pre-receive hook: '' @ errbuff_at_wait sp @ ('' ('' @ e @ '')''))"
    by (simp add: run_git_shell_def Let_def)
  then show ?thesis using Contains_append by blast
qed

text \<open>When \<^verbatim>\<open>io.Copy\<close> fails, the error returned is built from the error of the copy
  alone.\<close>

lemma run_git_shell_copy_failure:
  assumes "pipe_err sp = None" and "start_err sp = None" and "copy_err sp = Some e"
  shows "run_git_shell args env sp w =
     (Some (''Failed to write git objects into the git pre-receive hook ('' @ e @ '')''),
      w\<lparr>trace := trace w @ [EvStart args env, EvCopy]\<rparr>)"
  using assms by (simp add: run_git_shell_def Let_def)

text \<open>
  Claim C8 does not hold of the code. When the repository name is accepted, the
  repository and its hook are in place and the subprocess starts, a failure of the copy
  of the channel into the standard input of the subprocess makes \<open>Receive\<close> return the
  error \<open>Failed to write git objects into the git pre-receive hook (e)\<close>, where \<open>e\<close> is
  the error of the copy: the captured standard error is not part of it. The copy is
  executed once.
\<close>

theorem Receive_copy_failure:
  assumes "has_channel ps" and "has_request ps" and "fingerprint = Return fp"
    and "cleanRepoName (repoName ps) = Inr name"
    and "createRepo (join [gitHome ps, name @ ''.git'']) w = (Inr created, w1)"
    and "createPreReceiveHook join (gitHome ps) (join [gitHome ps, name @ ''.git'']) w1 = (None, w2)"
    and "pipe_err sp = None" and "start_err sp = None" and "copy_err sp = Some e"
  shows "fst (Receive ps fingerprint join conn env sp w) =
           Return (Some (''Failed to write git objects into the git pre-receive hook ('' @ e @ '')'')) \<and>
         count_list (trace (snd (Receive ps fingerprint join conn env sp w))) EvCopy
           = Suc (count_list (trace w2) EvCopy)"
  using assms by (simp add: Receive_def Let_def run_git_shell_copy_failure)

text \<open>The push of \<open>/demo.git\<close> with the broken pipe: the error returned does not contain
  the captured \<open>fatal: early EOF\<close>.\<close>

lemma demo_path: "join_clean [gitHome demo_params, ''demo'' @ ''.git''] = ''/home/git/demo.git''"
  by (simp add: join_clean_def demo_params_def)

lemma demo_clean: "cleanRepoName (repoName demo_params) = Inr ''demo''"
  by (simp add: string_eval demo_params_def)

lemma demo_createRepo:
  "createRepo ''/home/git/demo.git'' empty_world =
     (Inr True, snd (createRepo ''/home/git/demo.git'' empty_world))"
  using createRepo_empty_world by (metis prod.collapse)

lemma demo_hook:
  "fst (createPreReceiveHook join_clean ''/home/git'' ''/home/git/demo.git''
     (snd (createRepo ''/home/git/demo.git'' empty_world))) = None"
  by (simp add: createPreReceiveHook_def Let_def createRepo_def world_eval)

theorem Receive_copy_failure_witness:
  "fst (Receive demo_params (Return ''aa:bb'') join_clean ''0 0 0 0'' [] broken_pipe empty_world) =
     Return (Some ''Failed to write git objects into the git pre-receive hook (write |1: broken pipe)'') \<and>
   \<not> Contains ''Failed to write git objects into the git pre-receive hook (write |1: broken pipe)''
        (errbuff_at_copy broken_pipe)"
proof -
  let ?w1 = "snd (createRepo ''/home/git/demo.git'' empty_world)"
  let ?w2 = "snd (createPreReceiveHook join_clean ''/home/git'' ''/home/git/demo.git'' ?w1)"
  have h1: "has_channel demo_params" and h2: "has_request demo_params"
    by (simp_all add: demo_params_def)
  have h5: "createRepo (join_clean [gitHome demo_params, ''demo'' @ ''.git'']) empty_world = (Inr True, ?w1)"
    unfolding demo_path by (rule demo_createRepo)
  have h6: "createPreReceiveHook join_clean (gitHome demo_params)
      (join_clean [gitHome demo_params, ''demo'' @ ''.git'']) ?w1 = (None, ?w2)"
    unfolding demo_path using demo_hook by (simp add: demo_params_def prod_eq_iff)
  have h7: "pipe_err broken_pipe = None" and h8: "start_err broken_pipe = None"
    and h9: "copy_err broken_pipe = Some ''write |1: broken pipe''"
    by (simp_all add: broken_pipe_def)
  from Receive_copy_failure [OF h1 h2 refl demo_clean h5 h6 h7 h8 h9]
  have "fst (Receive demo_params (Return ''aa:bb'') join_clean ''0 0 0 0'' [] broken_pipe empty_world) =
     Return (Some ''Failed to write git objects into the git pre-receive hook (write |1: broken pipe)'')"
    by simp
  moreover have "\<not> Contains ''Failed to write git objects into the git pre-receive hook (write |1: broken pipe)''
        (errbuff_at_copy broken_pipe)"
    by (simp add: Contains_def broken_pipe_def)
  ultimately show ?thesis by simp
qed

end
